theory Spec2Isabelle
  imports Main "HOL-Library.Word"
begin

unbundle bit_operations_syntax

section \<open>Cell identifiers\<close>

text \<open>
  The union stores \<open>S2CellId\<close> values. The class itself lives in \<open>S2CellId.ts\<close>, which is
  not among the sources; the union only consumes it through the operations below. An
  identifier wraps one 64-bit integer (a \<open>Long\<close>), compared as an unsigned value: the
  order of \<open>64 word\<close>.
\<close>

type_synonym cellid = "64 word"

definition MAX_LEVEL :: nat where
  "MAX_LEVEL = 30"

text \<open>Modelled from the spec: \<open>lowestOnBit\<close> of S2CellId, the lowest set bit of the value
  (``level encoded via the position of the lowest set bit'').\<close>

definition lowestOnBit :: "cellid \<Rightarrow> cellid" where
  "lowestOnBit x = x AND (- x)"

text \<open>Modelled from the spec: \<open>lowestOnBitForLevel\<close> of S2CellId, the lowest set bit of a
  cell of the given level: two bits per level below level 0, whose bit is bit 60. A level
  is a natural number here; the contract is for levels up to \<open>MAX_LEVEL\<close>.\<close>

definition lowestOnBitForLevel :: "nat \<Rightarrow> cellid" where
  "lowestOnBitForLevel l = push_bit (2 * (MAX_LEVEL - l)) 1"

text \<open>Modelled from the spec: the face of an identifier, its three leading bits.\<close>

definition face :: "cellid \<Rightarrow> nat" where
  "face x = unat (drop_bit 61 x)"

text \<open>Modelled from the spec: validity of an S2CellId. A cell identifier names one of the six
  faces and has its lowest set bit at the position of one of the levels 0..30.\<close>

definition isValid :: "cellid \<Rightarrow> bool" where
  "isValid x \<longleftrightarrow> face x < 6 \<and> list_ex (\<lambda>l. lowestOnBit x = lowestOnBitForLevel l) [0..<31]"

text \<open>Modelled from the spec: \<open>level\<close> of S2CellId, read off the position of the lowest set
  bit. The contract gives a level to cell identifiers only.\<close>

definition level :: "cellid \<Rightarrow> nat" where
  "level x = (case find (\<lambda>l. lowestOnBit x = lowestOnBitForLevel l) [0..<31] of
                Some l \<Rightarrow> l | None \<Rightarrow> 0)"

text \<open>Modelled from the spec: \<open>isFace\<close> of S2CellId, a whole top-level face: no bit below the
  level-0 position is set.\<close>

definition isFace :: "cellid \<Rightarrow> bool" where
  "isFace x \<longleftrightarrow> x AND (lowestOnBitForLevel 0 - 1) = 0"

text \<open>Modelled from the spec: \<open>isLeaf\<close> of S2CellId, a cell of the finest level.\<close>

definition isLeaf :: "cellid \<Rightarrow> bool" where
  "isLeaf x \<longleftrightarrow> x AND 1 \<noteq> 0"

text \<open>Modelled from the spec: \<open>rangeMin\<close> and \<open>rangeMax\<close> of S2CellId, the smallest and the
  largest leaf identifier below the cell.\<close>

definition rangeMin :: "cellid \<Rightarrow> cellid" where
  "rangeMin x = x - (lowestOnBit x - 1)"

definition rangeMax :: "cellid \<Rightarrow> cellid" where
  "rangeMax x = x + (lowestOnBit x - 1)"

text \<open>Modelled from the spec: \<open>contains\<close> of S2CellId,
  \<open>other.rangeMin() \<ge> this.rangeMin() \<and> other.rangeMax() \<le> this.rangeMax()\<close>.\<close>

definition cell_contains :: "cellid \<Rightarrow> cellid \<Rightarrow> bool" where
  "cell_contains this other \<longleftrightarrow> rangeMin this \<le> rangeMin other \<and> rangeMax other \<le> rangeMax this"

text \<open>Modelled from the spec: \<open>parent()\<close> and \<open>parent(level)\<close> of S2CellId: clear the position
  bits below the new lowest set bit and set that bit.\<close>

definition parent :: "cellid \<Rightarrow> cellid" where
  "parent x = (let newLsb = push_bit 2 (lowestOnBit x) in (x AND (- newLsb)) OR newLsb)"

definition parentL :: "cellid \<Rightarrow> nat \<Rightarrow> cellid" where
  "parentL x l = (let newLsb = lowestOnBitForLevel l in (x AND (- newLsb)) OR newLsb)"

text \<open>Modelled from the spec: the child of a cell at a position 0..3 among its four
  children, and the four children in curve order.\<close>

definition child :: "cellid \<Rightarrow> nat \<Rightarrow> cellid" where
  "child x pos = (let newLsb = drop_bit 2 (lowestOnBit x) in x + (of_nat (2 * pos + 1) - 4) * newLsb)"

definition children :: "cellid \<Rightarrow> cellid list" where
  "children x = [child x 0, child x 1, child x 2, child x 3]"

text \<open>Modelled from the spec: the binary search of S2CellId over an identifier sequence, between
  the indices \<open>low\<close> and \<open>high\<close> inclusive. The result is whether the key was found and
  the index where it stands, or otherwise its insertion point.\<close>

function search_loop :: "cellid list \<Rightarrow> cellid \<Rightarrow> int \<Rightarrow> int \<Rightarrow> bool \<times> int" where
  "search_loop ids key low high =
     (if low \<le> high then
        (let mid = (low + high) div 2;
             midVal = ids ! nat mid
         in if midVal < key then search_loop ids key (mid + 1) high
            else if key < midVal then search_loop ids key low (mid - 1)
            else (True, mid))
      else (False, low))"
  by pat_completeness auto
termination
  by (relation "measure (\<lambda>(ids, key, low, high). nat (high - low + 1))") auto

declare search_loop.simps [simp del]

text \<open>\<open>binarySearch\<close> answers \<open>-(low + 1)\<close> when the key is absent; \<open>indexedBinarySearch\<close>
  starts at a given index and answers the insertion point itself.\<close>

definition binarySearch :: "cellid list \<Rightarrow> cellid \<Rightarrow> int" where
  "binarySearch ids key =
     (case search_loop ids key 0 (int (length ids) - 1) of
        (True, mid) \<Rightarrow> mid | (False, low) \<Rightarrow> - (low + 1))"

definition indexedBinarySearch :: "cellid list \<Rightarrow> cellid \<Rightarrow> nat \<Rightarrow> nat" where
  "indexedBinarySearch ids key low = nat (snd (search_loop ids key (int low) (int (length ids) - 1)))"

section \<open>The cell union\<close>

text \<open>
  An \<open>S2CellUnion\<close> has one field, the array \<open>cellIds\<close>; a union is modelled by the list of
  its identifiers and a method that assigns the field returns the new list.
\<close>

subsection \<open>normalize\<close>

text \<open>The inner loop that discards the trailing entries of \<open>output\<close> contained by \<open>id\<close>.\<close>

function discard_contained :: "cellid \<Rightarrow> cellid list \<Rightarrow> cellid list" where
  "discard_contained cid output =
     (if output \<noteq> [] \<and> cell_contains cid (last output)
      then discard_contained cid (butlast output)
      else output)"
  by pat_completeness auto
termination
  by (relation "measure (\<lambda>(cid, output). length output)") auto

declare discard_contained.simps [simp del]

text \<open>The loop \<open>while (output.length >= 3)\<close>: the cheap test on the last three entries, the
  exact test under the mask, and the replacement of four children by their parent. It
  returns the output array and the identifier that is pushed next.\<close>

function collapse :: "cellid list \<Rightarrow> cellid \<Rightarrow> cellid list \<times> cellid" where
  "collapse output cid =
     (if length output \<ge> 3 then
        (let size = length output;
             a = output ! (size - 3);
             b = output ! (size - 2);
             c = output ! (size - 1)
         in if (a AND b AND c) \<noteq> cid then (output, cid)
            else
              (let mask0 = push_bit 1 (lowestOnBit cid);
                   mask = NOT (mask0 + push_bit 1 mask0);
                   idMasked = cid AND mask
               in if a AND mask \<noteq> idMasked \<or> b AND mask \<noteq> idMasked
                     \<or> c AND mask \<noteq> idMasked \<or> isFace cid
                  then (output, cid)
                  else collapse (take (size - 3) output) (parent cid)))
      else (output, cid))"
  by pat_completeness auto
termination
  by (relation "measure (\<lambda>(output, cid). length output)") auto

declare collapse.simps [simp del]

text \<open>The body of \<open>this.cellIds.forEach\<close>, for one identifier.\<close>

definition normalize_step :: "cellid list \<Rightarrow> cellid \<Rightarrow> cellid list" where
  "normalize_step output cid =
     (if output \<noteq> [] \<and> cell_contains (last output) cid then output
      else (case collapse (discard_contained cid output) cid of
              (output', id') \<Rightarrow> output' @ [id']))"

text \<open>\<open>normalize\<close> sorts the field in place, runs the loop and replaces the field by the
  output when that is shorter. The result is the returned flag and the field afterwards.\<close>

definition normalize :: "cellid list \<Rightarrow> bool \<times> cellid list" where
  "normalize cellIds =
     (let sorted_ids = sort cellIds;
          output = foldl normalize_step [] sorted_ids
      in if length output < length sorted_ids then (True, output) else (False, sorted_ids))"

subsection \<open>Queries\<close>

definition contains :: "cellid list \<Rightarrow> cellid \<Rightarrow> bool" where
  "contains cellIds cid =
     (let pos0 = binarySearch cellIds cid;
          pos = (if pos0 < 0 then - pos0 - 1 else pos0)
      in if pos < int (length cellIds) \<and> rangeMin (cellIds ! nat pos) \<le> cid then True
         else pos \<noteq> 0 \<and> cid \<le> rangeMax (cellIds ! nat (pos - 1)))"

definition intersects :: "cellid list \<Rightarrow> cellid \<Rightarrow> bool" where
  "intersects cellIds cid =
     (let pos0 = binarySearch cellIds cid;
          pos = (if pos0 < 0 then - pos0 - 1 else pos0)
      in if pos < int (length cellIds) \<and> rangeMin (cellIds ! nat pos) \<le> rangeMax cid then True
         else pos \<noteq> 0 \<and> rangeMin cid \<le> rangeMax (cellIds ! nat (pos - 1)))"

text \<open>The loops of \<open>containsUnion\<close> and \<open>intersectsUnion\<close> return false at the first
  identifier that fails and true after the last.\<close>

fun containsUnion :: "cellid list \<Rightarrow> cellid list \<Rightarrow> bool" where
  "containsUnion this [] = True"
| "containsUnion this (c # rest) = (if \<not> contains this c then False else containsUnion this rest)"

fun intersectsUnion :: "cellid list \<Rightarrow> cellid list \<Rightarrow> bool" where
  "intersectsUnion this [] = True"
| "intersectsUnion this (c # rest) = (if \<not> intersects this c then False else intersectsUnion this rest)"

subsection \<open>leafCellsCovered\<close>

text \<open>\<open>Long.shiftLeft\<close> takes the shift count modulo 64; \<open>Long.add\<close> wraps around.\<close>

definition shiftLeft :: "64 word \<Rightarrow> nat \<Rightarrow> 64 word" where
  "shiftLeft x numBits = push_bit (numBits mod 64) x"

definition leafCellsCovered :: "cellid list \<Rightarrow> 64 word" where
  "leafCellsCovered cellIds =
     foldl (\<lambda>numLeaves cid.
              let invertedLevel = MAX_LEVEL - level cid
              in numLeaves + shiftLeft 1 (2 * invertedLevel)) 0 cellIds"

subsection \<open>getIntersectionUU\<close>

text \<open>The binary search never answers an index before the one it starts at; the sweep
  below rests on it to advance.\<close>

lemma search_loop_lower: "low \<le> snd (search_loop ids key low high)"
proof (induction ids key low high rule: search_loop.induct)
  case (1 ids key low high)
  show ?case
  proof (cases "low \<le> high")
    case True
    define mid where "mid = (low + high) div 2"
    have mid: "low \<le> mid" using True by (simp add: mid_def)
    have up: "ids ! nat mid < key \<Longrightarrow> mid + 1 \<le> snd (search_loop ids key (mid + 1) high)"
      using "1.IH"(1) [OF True refl refl] by (simp add: mid_def)
    have down: "\<not> ids ! nat mid < key \<Longrightarrow> key < ids ! nat mid
                \<Longrightarrow> low \<le> snd (search_loop ids key low (mid - 1))"
      using "1.IH"(2) [OF True refl refl] by (simp add: mid_def)
    have "search_loop ids key low high =
            (if ids ! nat mid < key then search_loop ids key (mid + 1) high
             else if key < ids ! nat mid then search_loop ids key low (mid - 1)
             else (True, mid))"
      using True by (subst search_loop.simps) (simp add: Let_def mid_def)
    then show ?thesis using mid up down by auto
  next
    case False
    then show ?thesis by (subst search_loop.simps) simp
  qed
qed

lemma indexedBinarySearch_lower: "low \<le> indexedBinarySearch ids key low"
  using search_loop_lower [of "int low" ids key "int (length ids) - 1"]
  by (simp add: indexedBinarySearch_def)

text \<open>The sweep of \<open>getIntersectionUU\<close> with its two cursors; \<open>out\<close> is the receiver's array,
  empty at the start.\<close>

function isect_loop :: "cellid list \<Rightarrow> cellid list \<Rightarrow> nat \<Rightarrow> nat \<Rightarrow> cellid list \<Rightarrow> cellid list" where
  "isect_loop x y i j out =
     (if i < length x \<and> j < length y then
        (if rangeMin (y ! j) < rangeMin (x ! i) then
           (if x ! i \<le> rangeMax (y ! j) then isect_loop x y (i + 1) j (out @ [x ! i])
            else if x ! i \<le> rangeMax (y ! (indexedBinarySearch y (rangeMin (x ! i)) (j + 1) - 1))
            then isect_loop x y i (indexedBinarySearch y (rangeMin (x ! i)) (j + 1) - 1) out
            else isect_loop x y i (indexedBinarySearch y (rangeMin (x ! i)) (j + 1)) out)
         else if rangeMin (x ! i) < rangeMin (y ! j) then
           (if y ! j \<le> rangeMax (x ! i) then isect_loop x y i (j + 1) (out @ [y ! j])
            else if y ! j \<le> rangeMax (x ! (indexedBinarySearch x (rangeMin (y ! j)) (i + 1) - 1))
            then isect_loop x y (indexedBinarySearch x (rangeMin (y ! j)) (i + 1) - 1) j out
            else isect_loop x y (indexedBinarySearch x (rangeMin (y ! j)) (i + 1)) j out)
         else
           (if x ! i < y ! j then isect_loop x y (i + 1) j (out @ [x ! i])
            else isect_loop x y i (j + 1) (out @ [y ! j])))
      else out)"
  by pat_completeness auto
termination
proof (relation "measure (\<lambda>(x, y, i, j, out). (length x - i) + (length y - j))", goal_cases)
  case 1
  show ?case by simp
next
  case (2 x y i j out)
  then show ?case by auto
next
  case (3 x y i j out)
  have "j + 1 \<le> indexedBinarySearch y (rangeMin (x ! i)) (j + 1)"
    by (rule indexedBinarySearch_lower)
  moreover have "indexedBinarySearch y (rangeMin (x ! i)) (j + 1) - 1 \<noteq> j"
    using 3 by auto
  ultimately show ?case using 3 by auto
next
  case (4 x y i j out)
  have "j + 1 \<le> indexedBinarySearch y (rangeMin (x ! i)) (j + 1)"
    by (rule indexedBinarySearch_lower)
  then show ?case using 4 by auto
next
  case (5 x y i j out)
  then show ?case by auto
next
  case (6 x y i j out)
  have "i + 1 \<le> indexedBinarySearch x (rangeMin (y ! j)) (i + 1)"
    by (rule indexedBinarySearch_lower)
  moreover have "indexedBinarySearch x (rangeMin (y ! j)) (i + 1) - 1 \<noteq> i"
    using 6 by auto
  ultimately show ?case using 6 by auto
next
  case (7 x y i j out)
  have "i + 1 \<le> indexedBinarySearch x (rangeMin (y ! j)) (i + 1)"
    by (rule indexedBinarySearch_lower)
  then show ?case using 7 by auto
next
  case (8 x y i j out)
  then show ?case by auto
next
  case (9 x y i j out)
  then show ?case by auto
qed

declare isect_loop.simps [simp del]

definition getIntersectionUU :: "cellid list \<Rightarrow> cellid list \<Rightarrow> cellid list" where
  "getIntersectionUU x y = isect_loop x y 0 0 []"

subsection \<open>expand\<close>

text \<open>The element access \<open>cellId(i)\<close>: an index outside the array yields \<open>undefined\<close>, and
  calling a method on it raises a \<open>TypeError\<close>.\<close>

datatype error = TypeError

definition cellId :: "cellid list \<Rightarrow> int \<Rightarrow> cellid option" where
  "cellId cellIds i = (if 0 \<le> i \<and> i < int (length cellIds) then Some (cellIds ! nat i) else None)"

text \<open>The inner loop of \<open>expand\<close>, which moves the index back over the entries that the
  ancestor contains.\<close>

function skip_contained :: "cellid list \<Rightarrow> cellid \<Rightarrow> int \<Rightarrow> error + int" where
  "skip_contained cellIds cid i =
     (if i > 0 then
        (case cellId cellIds (i - 1) of
           None \<Rightarrow> Inl TypeError
         | Some c \<Rightarrow> if cell_contains cid c then skip_contained cellIds cid (i - 1) else Inr i)
      else Inr i)"
  by pat_completeness auto
termination
  by (relation "measure (\<lambda>(cellIds, cid, i). nat i)") auto

declare skip_contained.simps [simp del]

lemma skip_contained_upper: "skip_contained cellIds cid i = Inr i' \<Longrightarrow> i' \<le> i"
proof (induction cellIds cid i rule: skip_contained.induct)
  case (1 cellIds cid i)
  from "1.prems" show ?case
    by (subst (asm) skip_contained.simps) (auto split: if_splits option.splits dest: "1.IH")
qed

text \<open>What one round of the do-while loop settles on: the cell to emit and the index it
  stands at afterwards.\<close>

definition expand_pick :: "nat \<Rightarrow> cellid list \<Rightarrow> int \<Rightarrow> error + (cellid \<times> int)" where
  "expand_pick lvl cellIds i =
     (case cellId cellIds i of
        None \<Rightarrow> Inl TypeError
      | Some cid \<Rightarrow>
          if lowestOnBit cid < lowestOnBitForLevel lvl then
            (case skip_contained cellIds (parentL cid lvl) i of
               Inl e \<Rightarrow> Inl e
             | Inr i' \<Rightarrow> Inr (parentL cid lvl, i'))
          else Inr (cid, i))"

lemma expand_pick_bounds: "expand_pick lvl cellIds i = Inr (cid, i') \<Longrightarrow> i' \<le> i \<and> 0 \<le> i"
  by (auto simp: expand_pick_def cellId_def split: option.splits if_splits sum.splits
      dest: skip_contained_upper)

text \<open>The do-while loop of \<open>expand\<close>. \<open>getAllNeighbors\<close> belongs to S2CellId and is a
  parameter: the cells of the given level adjacent to a cell.\<close>

function expand_loop ::
  "(cellid \<Rightarrow> nat \<Rightarrow> cellid list) \<Rightarrow> nat \<Rightarrow> cellid list \<Rightarrow> int \<Rightarrow> cellid list \<Rightarrow> error + cellid list" where
  "expand_loop getAllNeighbors lvl cellIds i output =
     (case expand_pick lvl cellIds i of
        Inl e \<Rightarrow> Inl e
      | Inr (cid, i') \<Rightarrow>
          if i' - 1 \<ge> 0
          then expand_loop getAllNeighbors lvl cellIds (i' - 1)
                 ((output @ [cid]) @ getAllNeighbors cid lvl)
          else Inr ((output @ [cid]) @ getAllNeighbors cid lvl))"
  by pat_completeness auto
termination
proof (relation "measure (\<lambda>(getAllNeighbors, lvl, cellIds, i, output). nat i)", goal_cases)
  case 1
  show ?case by simp
next
  case (2 getAllNeighbors lvl cellIds i out r cid i')
  then have "expand_pick lvl cellIds i = Inr (cid, i')" by simp
  from expand_pick_bounds [OF this] 2 show ?case by simp
qed

declare expand_loop.simps [simp del]

text \<open>\<open>expand\<close> ends with \<open>initSwap(output)\<close>, which copies the output into the field and
  normalizes it.\<close>

definition expand :: "(cellid \<Rightarrow> nat \<Rightarrow> cellid list) \<Rightarrow> cellid list \<Rightarrow> nat \<Rightarrow> error + cellid list" where
  "expand getAllNeighbors cellIds lvl =
     (case expand_loop getAllNeighbors lvl cellIds (int (length cellIds) - 1) [] of
        Inl e \<Rightarrow> Inl e
      | Inr output \<Rightarrow> Inr (snd (normalize output)))"

section \<open>Normalized unions\<close>

text \<open>The three invariants of a normalized union: the sequence is strictly ascending, no
  identifier is contained by another, and no four consecutive identifiers are the four
  children of one cell.\<close>

definition sibling_group :: "cellid \<Rightarrow> cellid \<Rightarrow> cellid \<Rightarrow> cellid \<Rightarrow> bool" where
  "sibling_group a b c d \<longleftrightarrow> \<not> isFace a \<and> children (parent a) = [a, b, c, d]"

fun has_sibling_group :: "cellid list \<Rightarrow> bool" where
  "has_sibling_group (a # b # c # d # rest) =
     (sibling_group a b c d \<or> has_sibling_group (b # c # d # rest))"
| "has_sibling_group _ = False"

definition is_normalized :: "cellid list \<Rightarrow> bool" where
  "is_normalized cellIds \<longleftrightarrow>
     sorted_wrt (<) cellIds
     \<and> (\<forall>a \<in> set cellIds. \<forall>b \<in> set cellIds. a \<noteq> b \<longrightarrow> \<not> cell_contains a b)
     \<and> \<not> has_sibling_group cellIds"

text \<open>The scan of \<open>expand\<close> as the amended claim C5 words it, over the entries from the last
  to the first: an entry finer than the level is replaced by its ancestor at that level and
  the entries before it that the ancestor contains are passed over; the cell and then its
  neighbours are emitted.\<close>

function (sequential) expand_spec :: "(cellid \<Rightarrow> nat \<Rightarrow> cellid list) \<Rightarrow> nat \<Rightarrow> cellid list \<Rightarrow> cellid list" where
  "expand_spec getAllNeighbors lvl [] = []"
| "expand_spec getAllNeighbors lvl (c # before) =
     (if lowestOnBit c < lowestOnBitForLevel lvl
      then (parentL c lvl # getAllNeighbors (parentL c lvl) lvl)
             @ expand_spec getAllNeighbors lvl (dropWhile (cell_contains (parentL c lvl)) before)
      else (c # getAllNeighbors c lvl) @ expand_spec getAllNeighbors lvl before)"
  by pat_completeness auto
termination
  by (relation "measure (\<lambda>(getAllNeighbors, lvl, cellIds). length cellIds)")
    (auto simp: less_Suc_eq_le length_dropWhile_le)

section \<open>Ranges of cells\<close>

text \<open>The range of a cell, read as natural numbers.\<close>

definition lo :: "cellid \<Rightarrow> nat" where "lo x = unat (rangeMin x)"
definition hi :: "cellid \<Rightarrow> nat" where "hi x = unat (rangeMax x)"

text \<open>A sequence whose ranges follow one another without overlap, and the set of
  positions a sequence covers.\<close>

definition chain :: "cellid list \<Rightarrow> bool" where
  "chain xs \<longleftrightarrow> sorted_wrt (\<lambda>a b. hi a < lo b) xs"

definition cover :: "cellid list \<Rightarrow> nat set" where
  "cover xs = (\<Union>c \<in> set xs. {lo c..hi c})"

text \<open>What the sweep of \<open>getIntersectionUU\<close> has to deliver from the cursors \<open>i\<close> and \<open>j\<close>
  on: a sequence of disjoint ascending ranges that covers what both remainders cover, each
  entry taken from one remainder and contained by an entry of the other.\<close>

definition isect_ok :: "cellid list \<Rightarrow> cellid list \<Rightarrow> nat \<Rightarrow> nat \<Rightarrow> cellid list \<Rightarrow> bool" where
  "isect_ok x y i j r \<longleftrightarrow>
     cover r = cover (drop i x) \<inter> cover (drop j y) \<and> chain r
     \<and> (\<forall>e \<in> set r. (e \<in> set (drop i x) \<and> (\<exists>b \<in> set (drop j y). cell_contains b e))
                    \<or> (e \<in> set (drop j y) \<and> (\<exists>a \<in> set (drop i x). cell_contains a e)))"

subsection \<open>The lowest set bit and the shape of a range\<close>

lemma int_lowest_bit: "(i::int) \<noteq> 0 \<Longrightarrow> \<exists>k q. i AND - i = 2^k \<and> i = (2*q+1) * 2^k"
proof (induction i rule: int_bit_induct)
  case zero
  then show ?case by simp
next
  case minus
  show ?case by (rule exI[of _ 0], rule exI[of _ "-1"]) simp
next
  case (even k)
  then obtain n q where h: "k AND - k = 2^n" "k = (2*q+1) * 2^n" by auto
  have "(- (k * 2)) div 2 = - k" by simp
  then have "(k * 2) AND - (k * 2) = 2 * (k AND - k)"
    by (subst and_int_rec) simp
  then show ?case using h
    by (intro exI[of _ "Suc n"] exI[of _ q]) simp
next
  case (odd k)
  have "(- (1 + k * 2)) div 2 = NOT k" by (simp add: not_int_def)
  then have "(1 + k * 2) AND - (1 + k * 2) = 1"
    by (subst and_int_rec) simp
  then show ?case
    by (intro exI[of _ 0] exI[of _ k]) simp
qed

lemma word_lowest_bit:
  fixes x :: cellid
  assumes "x \<noteq> 0"
  shows "\<exists>k q. k < 64 \<and> unat (lowestOnBit x) = 2^k \<and> unat x = (2*q+1) * 2^k"
proof -
  have nz: "uint x \<noteq> 0" using assms by (simp add: uint_0_iff)
  from int_lowest_bit[OF nz] obtain k q where h: "uint x AND - uint x = 2^k" "uint x = (2*q+1) * 2^k" by blast
  have pos: "0 < uint x" using nz by (smt (verit) uint_ge_0)
  have lt: "uint x < 2^64" using uint_lt2p[of x] by simp
  have q0: "0 \<le> q" using pos h(2)
    by (smt (verit) mult_le_0_iff zero_less_power)
  have "(2::int)^k \<le> uint x" using h(2) q0
    by (smt (verit, ccfv_SIG) mult_le_cancel_right1 zero_less_power)
  then have "(2::int)^k < 2^64" using lt by linarith
  then have k: "k < 64" by (rule power_less_imp_less_exp[of "2::int", rotated]) simp
  have "uint (x AND - x) = uint x AND take_bit 64 (- uint x)"
    by (simp add: uint_and uint_word_arith_bintrs)
  also have "\<dots> = take_bit 64 (uint x AND - uint x)"
    by (metis (no_types, lifting) lt take_bit_and take_bit_int_eq_self uint_ge_0) 
  also have "\<dots> = 2^k" using h(1) k by (simp add: take_bit_int_eq_self)
  finally have a: "uint (x AND - x) = 2^k" .
  have "unat (x AND - x) = nat (2^k)" using a by (simp add: unat_eq_nat_uint)
  then have u1: "unat (lowestOnBit x) = 2^k" by (simp add: nat_power_eq lowestOnBit_def)
  have "unat x = nat ((2*q+1) * 2^k)" using h(2) by (simp add: unat_eq_nat_uint)
  also have "\<dots> = (2 * nat q + 1) * 2^k" using q0
    by (simp add: nat_mult_distrib nat_power_eq nat_add_distrib)
  finally show ?thesis using k u1 by blast
qed

lemma odd_pow_unique:
  fixes q q' k k' :: nat
  assumes "(2*q+1) * 2^k = (2*q'+1) * 2^k'"
  shows "k = k' \<and> q = q'"
  using assms
proof (induction k arbitrary: k')
  case 0
  show ?case
  proof (cases k')
    case 0
    then show ?thesis using "0.prems" by simp
  next
    case (Suc n)
    then have "even ((2*q'+1) * 2^k')" by simp
    moreover have "odd ((2*q+1) * (2::nat)^0)" by simp
    ultimately show ?thesis using "0.prems" by metis
  qed
next
  case (Suc k)
  show ?case
  proof (cases k')
    case 0
    have "even ((2*q+1) * (2::nat)^(Suc k))" by simp
    moreover have "odd ((2*q'+1) * (2::nat)^0)" by simp
    ultimately show ?thesis using Suc.prems 0 by metis
  next
    case (Suc n)
    then have "(2*q+1) * 2^k = (2*q'+1) * 2^n" using Suc.prems by simp
    from Suc.IH[OF this] show ?thesis using Suc by simp
  qed
qed

lemma pow2_room:
  fixes q k :: nat
  assumes "(2*q+1) * 2^k < 2^64" "k < 64"
  shows "(2*q+2) * 2^k \<le> 2^64"
proof -
  define M :: nat where "M = 2^(63 - k)"
  have e: "(2::nat)^64 = 2 * M * 2^k"
    using assms(2) by (simp add: M_def flip: power_add power_Suc)
  have "(2*q+1) * 2^k < 2 * M * 2^k" using assms(1) e by simp
  then have "2*q+1 < 2 * M" by (simp only: mult_less_cancel2)
  then have "2*q+2 \<le> 2 * M" by simp
  then have "(2*q+2) * 2^k \<le> 2 * M * 2^k" by (rule mult_le_mono1)
  then show ?thesis using e by simp
qed

lemma cell_shape_of:
  fixes x :: cellid
  assumes u: "unat x = (2*q+1) * 2^k"
  shows "unat (lowestOnBit x) = 2^k \<and> lo x = 2*q * 2^k + 1 \<and> hi x + 1 = (2*q+2) * 2^k \<and> k < 64"
proof -
  have "unat x \<noteq> 0" using u by simp
  then have nz: "x \<noteq> 0" by (metis unat_0)
  from word_lowest_bit[OF nz] obtain k' q' where h: "k' < 64" "unat (lowestOnBit x) = 2^k'"
    "unat x = (2*q'+1) * 2^k'" by blast
  have kk: "k = k'" "q = q'" using odd_pow_unique[of q k q' k'] u h(3) by simp_all
  have L: "unat (lowestOnBit x) = 2^k" using h kk by simp
  have k64: "k < 64" using h kk by simp
  have Lnz: "lowestOnBit x \<noteq> 0" using L by (metis power_not_zero unat_0 zero_neq_numeral)
  have L1: "unat (lowestOnBit x - 1) = 2^k - 1" using L Lnz by (simp add: unat_minus_one)
  have le: "lowestOnBit x - 1 \<le> x"
    unfolding word_le_nat_alt L1 u
    by (metis diff_le_self le_trans mult.commute mult_le_mono2 nat_mult_1_right
        One_nat_def Suc_leI add.commute add_gr_0 zero_less_one)
  have lo: "lo x = (2*q+1) * 2^k - (2^k - 1)"
    unfolding lo_def rangeMin_def using unat_sub[OF le] L1 u by simp
  have lt64: "(2*q+1) * 2^k < 2^64" using unsigned_less[of x, where 'a=nat] u by simp
  have room: "(2*q+2) * 2^k \<le> 2^64" using pow2_room[OF lt64 k64] .
  have "unat x + unat (lowestOnBit x - 1) < 2^LENGTH(64)"
  proof -
    have "(2*q+1) * 2^k + (2^k - 1) < (2*q+2) * 2^k" by (simp add: algebra_simps)
    then show ?thesis using room unfolding u L1 by simp
  qed
  then have "unat (x + (lowestOnBit x - 1)) = unat x + unat (lowestOnBit x - 1)"
    by (simp only: unat_add_lem)
  then have hi: "hi x = (2*q+1) * 2^k + (2^k - 1)"
    unfolding hi_def rangeMax_def using L1 u by simp
  have "lo x = 2*q * 2^k + 1" unfolding lo by (simp add: algebra_simps)
  moreover have "hi x + 1 = (2*q+2) * 2^k" unfolding hi by (simp add: algebra_simps)
  ultimately show ?thesis using L k64 by simp
qed

lemma cell_shape:
  fixes x :: cellid
  assumes "x \<noteq> 0"
  shows "\<exists>k q. k < 64 \<and> unat x = (2*q+1) * 2^k \<and> unat (lowestOnBit x) = 2^k
             \<and> lo x = 2*q * 2^k + 1 \<and> hi x + 1 = (2*q+2) * 2^k"
proof -
  from word_lowest_bit[OF assms] obtain k q where "unat x = (2*q+1) * 2^k" by blast
  from cell_shape_of[OF this] this show ?thesis by blast
qed

lemma cell_contains_iff: "cell_contains a b \<longleftrightarrow> lo a \<le> lo b \<and> hi b \<le> hi a"
  by (simp add: cell_contains_def lo_def hi_def word_le_nat_alt)

lemma range_bounds:
  assumes "x \<noteq> 0"
  shows "lo x \<le> unat x" "unat x \<le> hi x" "lo x + hi x = 2 * unat x" "0 < lo x"
proof -
  from cell_shape[OF assms] obtain k q where h: "unat x = (2*q+1) * 2^k"
    "lo x = 2*q * 2^k + 1" "hi x + 1 = (2*q+2) * 2^k" by blast
  define A :: nat where "A = 2*q * 2^k"
  define P :: nat where "P = 2^k"
  have p: "1 \<le> P" by (simp add: P_def)
  have u: "unat x = A + P" using h(1) by (simp add: A_def P_def algebra_simps)
  have l: "lo x = A + 1" using h(2) by (simp add: A_def)
  have hh: "hi x + 1 = A + 2 * P" using h(3) by (simp add: A_def P_def algebra_simps)
  show "lo x \<le> unat x" using u l p by linarith
  show "unat x \<le> hi x" using u hh p by linarith
  show "lo x + hi x = 2 * unat x" using u l hh p by linarith
  show "0 < lo x" using l by simp
qed

lemma range_inj:
  assumes "x \<noteq> 0" "y \<noteq> 0" "lo x = lo y" "hi x = hi y"
  shows "x = y"
proof -
  have "2 * unat x = 2 * unat y" using range_bounds(3)[OF assms(1)] range_bounds(3)[OF assms(2)] assms(3,4) by simp
  then show ?thesis by (simp add: word_unat_eq_iff)
qed

lemma dyadic_laminar:
  fixes q q' k k' :: nat
  assumes "k \<le> k'"
  shows "(2*q+2) * 2^k \<le> 2*q' * 2^k' \<or> (2*q'+2) * 2^k' \<le> 2*q * 2^k
         \<or> (2*q' * 2^k' \<le> 2*q * 2^k \<and> (2*q+2) * 2^k \<le> (2*q'+2) * 2^k')"
proof -
  define d where "d = k' - k"
  define m where "m = q' * 2^d"
  define n where "n = (q'+1) * 2^d"
  have e: "(2::nat)^k' = 2^d * 2^k" using assms by (simp add: d_def flip: power_add)
  have a: "2*q' * 2^k' = 2 * m * 2^k" by (simp add: e m_def)
  have b: "(2*q'+2) * 2^k' = 2 * n * 2^k" by (simp add: e n_def algebra_simps)
  consider "q + 1 \<le> m" | "n \<le> q" | "m \<le> q \<and> q + 1 \<le> n" by linarith
  then show ?thesis
  proof cases
    case 1
    then have "2 * (q + 1) * 2^k \<le> 2 * m * 2^k" by (intro mult_le_mono1 mult_le_mono2)
    then show ?thesis unfolding a by (simp add: algebra_simps)
  next
    case 2
    then have "2 * n * 2^k \<le> 2 * q * 2^k" by (intro mult_le_mono1 mult_le_mono2)
    then show ?thesis unfolding b by simp
  next
    case 3
    then have "2 * m * 2^k \<le> 2 * q * 2^k" "2 * (q + 1) * 2^k \<le> 2 * n * 2^k"
      by (intro mult_le_mono1 mult_le_mono2; simp)+
    then show ?thesis unfolding a b by (simp add: algebra_simps)
  qed
qed

lemma laminar:
  assumes "x \<noteq> 0" "y \<noteq> 0"
  shows "hi x < lo y \<or> hi y < lo x \<or> (lo y \<le> lo x \<and> hi x \<le> hi y) \<or> (lo x \<le> lo y \<and> hi y \<le> hi x)"
proof -
  from cell_shape[OF assms(1)] obtain k q where x:
    "lo x = 2*q * 2^k + 1" "hi x + 1 = (2*q+2) * 2^k" by blast
  from cell_shape[OF assms(2)] obtain k' q' where y:
    "lo y = 2*q' * 2^k' + 1" "hi y + 1 = (2*q'+2) * 2^k'" by blast
  show ?thesis
  proof (cases "k \<le> k'")
    case True
    from dyadic_laminar[OF True, of q q'] show ?thesis using x y by linarith
  next
    case False
    then have "k' \<le> k" by simp
    from dyadic_laminar[OF this, of q' q] show ?thesis using x y by linarith
  qed
qed

lemma no_multiple_between:
  fixes t q U :: nat
  assumes "q * U < t * U" "t * U < (q + 1) * U"
  shows False
proof -
  have "q < t" "t < q + 1" using assms by (simp_all only: mult_less_cancel2)
  then show False by simp
qed

lemma point_in_range:
  assumes "x \<noteq> 0" "c \<noteq> 0" "lo c \<le> unat x" "unat x \<le> hi c"
  shows "cell_contains c x"
proof -
  from cell_shape[OF assms(1)] obtain k q where x: "unat x = (2*q+1) * 2^k"
    "lo x = 2*q * 2^k + 1" "hi x + 1 = (2*q+2) * 2^k" by blast
  from cell_shape[OF assms(2)] obtain k' q' where c:
    "lo c = 2*q' * 2^k' + 1" "hi c + 1 = (2*q'+2) * 2^k'" by blast
  have bx: "lo x \<le> unat x" "unat x \<le> hi x" using range_bounds[OF assms(1)] by simp_all
  show ?thesis
  proof (cases "k \<le> k'")
    case True
    from dyadic_laminar[OF True, of q q'] show ?thesis
      using x c bx assms(3,4) unfolding cell_contains_iff by linarith
  next
    case False
    then have "Suc k' \<le> k" by simp
    then have e: "(2::nat)^k = 2^(k - Suc k') * (2 * 2^k')"
      by (metis le_add_diff_inverse2 power_Suc power_add)
    define t where "t = (2*q+1) * 2^(k - Suc k')"
    define U :: nat where "U = 2 * 2^k'"
    have "unat x = (2*q+1) * (2^(k - Suc k') * (2 * 2^k'))" using x(1) e by simp
    then have ux: "unat x = t * U" by (simp only: t_def U_def mult.assoc)
    have lc: "lo c = q' * U + 1" using c(1) by (simp add: U_def algebra_simps)
    have hc: "hi c + 1 = (q' + 1) * U" using c(2) by (simp add: U_def algebra_simps)
    have "q' * U < t * U" using assms(3) lc ux by linarith
    moreover have "t * U < (q' + 1) * U" using assms(4) hc ux by linarith
    ultimately show ?thesis using no_multiple_between by blast
  qed
qed

lemma cell_contains_point:
  assumes "x \<noteq> 0" "cell_contains c x"
  shows "lo c \<le> unat x" "unat x \<le> hi c"
  using assms range_bounds[OF assms(1)] by (auto simp: cell_contains_iff)

lemma cell_contains_antisym:
  assumes "x \<noteq> 0" "y \<noteq> 0" "cell_contains x y" "cell_contains y x"
  shows "x = y"
  using assms by (intro range_inj) (auto simp: cell_contains_iff)

section \<open>normalize on a normalized union\<close>

text \<open>The cheap test of the collapse loop fails whenever the entries of the output are
  below the candidate: their AND is at most the first of them.\<close>

lemma collapse_ascending:
  assumes "\<forall>e \<in> set output. e < cid"
  shows "collapse output cid = (output, cid)"
proof (cases "length output \<ge> 3")
  case True
  define a where "a = output ! (length output - 3)"
  have "a \<in> set output" using True by (simp add: a_def)
  then have "a < cid" using assms by blast
  moreover have "a AND output ! (length output - 2) AND output ! (length output - 1) \<le> a"
    by (simp add: word_and_le2 and.assoc)
  ultimately have "a AND output ! (length output - 2) AND output ! (length output - 1) \<noteq> cid"
    by auto
  then show ?thesis using True
    by (subst collapse.simps) (simp add: Let_def a_def)
next
  case False
  then show ?thesis by (subst collapse.simps) simp
qed

lemma discard_contained_none:
  "output = [] \<or> \<not> cell_contains cid (last output) \<Longrightarrow> discard_contained cid output = output"
  by (subst discard_contained.simps) auto

lemma normalize_step_append:
  assumes lt: "\<forall>e \<in> set output. e < cid"
    and nc: "output \<noteq> [] \<Longrightarrow> \<not> cell_contains (last output) cid \<and> \<not> cell_contains cid (last output)"
  shows "normalize_step output cid = output @ [cid]"
proof -
  have "discard_contained cid output = output"
    using nc by (intro discard_contained_none) blast
  moreover have "collapse output cid = (output, cid)"
    using lt by (rule collapse_ascending)
  ultimately show ?thesis using nc by (auto simp: normalize_step_def)
qed

lemma foldl_normalize_step_normalized:
  assumes "sorted_wrt (<) (p @ rest)"
    and "\<forall>a \<in> set (p @ rest). \<forall>b \<in> set (p @ rest). a \<noteq> b \<longrightarrow> \<not> cell_contains a b"
  shows "foldl normalize_step p rest = p @ rest"
  using assms
proof (induction rest arbitrary: p)
  case Nil
  then show ?case by simp
next
  case (Cons c rest)
  have lt: "\<forall>e \<in> set p. e < c" using Cons.prems(1) by (auto simp: sorted_wrt_append)
  have "normalize_step p c = p @ [c]"
  proof (rule normalize_step_append [OF lt])
    assume "p \<noteq> []"
    then have "last p \<in> set p" by simp
    then have "last p < c" "last p \<in> set (p @ c # rest)" using lt by auto
    then show "\<not> cell_contains (last p) c \<and> \<not> cell_contains c (last p)"
      using Cons.prems(2) by (metis in_set_conv_decomp order_less_irrefl)
  qed
  moreover have "foldl normalize_step (p @ [c]) rest = (p @ [c]) @ rest"
    using Cons.prems by (intro Cons.IH) simp_all
  ultimately show ?case by simp
qed

lemma normalize_fixed:
  assumes "is_normalized cellIds"
  shows "normalize cellIds = (False, cellIds)"
proof -
  have s: "sorted_wrt (<) cellIds" using assms by (simp add: is_normalized_def)
  then have "sorted cellIds" by (simp add: strict_sorted_iff)
  then have srt: "sort cellIds = cellIds" by (simp add: sorted_sort_id)
  have "foldl normalize_step [] cellIds = [] @ cellIds"
    using assms s by (intro foldl_normalize_step_normalized) (simp_all add: is_normalized_def)
  then show ?thesis by (simp add: normalize_def srt)
qed

section \<open>Sequences of disjoint ranges\<close>

lemma cell_contains_refl: "cell_contains x x"
  by (simp add: cell_contains_def)

lemma cell_contains_trans: "cell_contains x y \<Longrightarrow> cell_contains y z \<Longrightarrow> cell_contains x z"
  by (auto simp: cell_contains_iff)

lemma cover_simps [simp]:
  "cover [] = {}"
  "cover (x # xs) = {lo x..hi x} \<union> cover xs"
  "cover (xs @ ys) = cover xs \<union> cover ys"
  by (auto simp: cover_def)

lemma chain_simps [simp]:
  "chain []"
  "chain (x # xs) \<longleftrightarrow> (\<forall>y \<in> set xs. hi x < lo y) \<and> chain xs"
  by (auto simp: chain_def)

lemma chain_append:
  "chain (xs @ ys) \<longleftrightarrow> chain xs \<and> chain ys \<and> (\<forall>a \<in> set xs. \<forall>b \<in> set ys. hi a < lo b)"
  by (simp add: chain_def sorted_wrt_append)

lemma chain_take: "chain xs \<Longrightarrow> chain (take k xs)"
  by (metis append_take_drop_id chain_append)

lemma chain_sorted:
  assumes "chain xs" "0 \<notin> set xs"
  shows "sorted_wrt (<) xs"
  using assms
proof (induction xs)
  case Nil
  then show ?case by simp
next
  case (Cons x xs)
  have "x < y" if "y \<in> set xs" for y
  proof -
    have "y \<noteq> 0" "x \<noteq> 0" using that Cons.prems(2) by auto
    then have "unat x \<le> hi x" "lo y \<le> unat y" using range_bounds by simp_all
    moreover have "hi x < lo y" using Cons.prems(1) that by simp
    ultimately show ?thesis by (simp add: word_less_nat_alt)
  qed
  then show ?case using Cons by simp
qed

lemma chain_disjoint:
  assumes "chain xs" "a \<in> set xs" "b \<in> set xs" "a \<noteq> b"
  shows "hi a < lo b \<or> hi b < lo a"
  using assms
proof (induction xs)
  case Nil
  then show ?case by simp
next
  case (Cons x xs)
  then show ?case by auto
qed

lemma chain_no_containment:
  assumes "chain xs" "0 \<notin> set xs" "a \<in> set xs" "b \<in> set xs" "a \<noteq> b"
  shows "\<not> cell_contains a b"
proof -
  have "b \<noteq> 0" "a \<noteq> 0" using assms by auto
  then have "lo b \<le> hi b" "lo a \<le> hi a" using range_bounds by (meson order_trans)+
  then show ?thesis using chain_disjoint[OF assms(1,3,4,5)] by (auto simp: cell_contains_iff)
qed

lemma ordered_disjoint:
  assumes "a \<noteq> 0" "b \<noteq> 0" "a < b" "\<not> cell_contains a b" "\<not> cell_contains b a"
  shows "hi a < lo b"
proof -
  have "unat a < unat b" using assms(3) by (simp add: word_less_nat_alt)
  then have "\<not> hi b < lo a"
    using range_bounds(1)[OF assms(1)] range_bounds(2)[OF assms(2)] by linarith
  then show ?thesis using laminar[OF assms(1,2)] assms(4,5) by (auto simp: cell_contains_iff)
qed

lemma normalized_chain:
  assumes "sorted_wrt (<) xs" "0 \<notin> set xs"
    and "\<forall>a \<in> set xs. \<forall>b \<in> set xs. a \<noteq> b \<longrightarrow> \<not> cell_contains a b"
  shows "chain xs"
  using assms
proof (induction xs)
  case Nil
  then show ?case by simp
next
  case (Cons x xs)
  have "hi x < lo y" if "y \<in> set xs" for y
  proof -
    have "x < y" using Cons.prems(1) that by simp
    moreover have "x \<noteq> 0" "y \<noteq> 0" using Cons.prems(2) that by auto
    moreover have "\<not> cell_contains x y" "\<not> cell_contains y x"
      using Cons.prems(3) that \<open>x < y\<close> by auto
    ultimately show ?thesis by (intro ordered_disjoint)
  qed
  then show ?case using Cons by simp
qed

lemma discard_contained_spec:
  "\<exists>k. discard_contained cid out = take k out
       \<and> (\<forall>e \<in> set (drop k out). cell_contains cid e)
       \<and> (take k out = [] \<or> \<not> cell_contains cid (last (take k out)))"
proof (induction cid out rule: discard_contained.induct)
  case (1 cid out)
  show ?case
  proof (cases "out \<noteq> [] \<and> cell_contains cid (last out)")
    case True
    from "1.IH"[OF True] obtain k where k: "discard_contained cid (butlast out) = take k (butlast out)"
      "\<forall>e \<in> set (drop k (butlast out)). cell_contains cid e"
      "take k (butlast out) = [] \<or> \<not> cell_contains cid (last (take k (butlast out)))" by blast
    define k' where "k' = min k (length out - 1)"
    have t: "take k (butlast out) = take k' out"
      by (simp add: k'_def butlast_conv_take min.commute)
    have "drop k' out = drop k (butlast out) @ [last out]"
    proof -
      have "out = butlast out @ [last out]" using True by simp
      then have "drop k' out = drop k' (butlast out) @ [last out]"
        by (metis drop_append k'_def length_butlast min.cobounded2 diff_is_0_eq drop0)
      moreover have "drop k' (butlast out) = drop k (butlast out)"
        by (simp add: k'_def min_def)
      ultimately show ?thesis by simp
    qed
    then have d: "\<forall>e \<in> set (drop k' out). cell_contains cid e" using k(2) True by auto
    have "discard_contained cid out = take k' out"
      using True k(1) t by (subst discard_contained.simps) simp
    then show ?thesis using d k(3) t by metis
  next
    case False
    then have "discard_contained cid out = take (length out) out"
      by (subst discard_contained.simps) auto
    moreover have "take (length out) out = [] \<or> \<not> cell_contains cid (last (take (length out) out))"
      using False by auto
    ultimately show ?thesis by (metis drop_all empty_iff list.set(1) order_refl)
  qed
qed

section \<open>What normalize keeps\<close>

text \<open>One round of the loop of \<open>normalize\<close> keeps the output a sequence of disjoint
  ranges in ascending order and adds the range of the candidate to what it covers.\<close>

lemma chain_last_only:
  assumes ch: "chain out" and nz: "0 \<notin> set out" "cid \<noteq> 0"
    and le: "\<forall>e \<in> set out. e \<le> cid"
    and e: "e \<in> set out" "cell_contains e cid"
  shows "e = last out"
proof (rule ccontr)
  assume ne: "e \<noteq> last out"
  have "out \<noteq> []" using e by auto
  then have o: "out = butlast out @ [last out]" by simp
  then have "e \<in> set (butlast out)" using e(1) ne
    by (metis Un_iff empty_iff insert_iff list.set(1) list.set(2) set_append)
  moreover have "chain (butlast out @ [last out])" using ch o by simp
  ultimately have "hi e < lo (last out)" by (simp add: chain_append)
  moreover have "last out \<in> set out" using \<open>out \<noteq> []\<close> by simp
  then have "last out \<noteq> 0" "last out \<le> cid" using nz le by auto
  then have "lo (last out) \<le> unat (last out)" "unat (last out) \<le> unat cid"
    using range_bounds by (simp_all add: word_le_nat_alt)
  moreover have "unat cid \<le> hi e" using cell_contains_point[OF nz(2) e(2)] by simp
  ultimately show False by linarith
qed

lemma contained_suffix:
  assumes ch: "chain out" and nz: "0 \<notin> set out" "cid \<noteq> 0"
    and le: "\<forall>e \<in> set out. e \<le> cid"
    and e: "e \<in> set out" "cell_contains cid e"
  shows "cell_contains cid (last out)"
proof (cases "e = last out")
  case True
  then show ?thesis using e by simp
next
  case False
  have "out \<noteq> []" using e by auto
  then have o: "out = butlast out @ [last out]" by simp
  then have "e \<in> set (butlast out)" using e(1) False
    by (metis Un_iff empty_iff insert_iff list.set(1) list.set(2) set_append)
  moreover have "chain (butlast out @ [last out])" using ch o by simp
  ultimately have "hi e < lo (last out)" by (simp add: chain_append)
  moreover have l: "last out \<in> set out" using \<open>out \<noteq> []\<close> by simp
  then have lnz: "last out \<noteq> 0" and "last out \<le> cid" using nz le by auto
  then have "lo (last out) \<le> unat (last out)" "unat (last out) \<le> unat cid"
    using range_bounds by (simp_all add: word_le_nat_alt)
  moreover have "e \<noteq> 0" using e(1) nz by auto
  then have "lo e \<le> hi e" using range_bounds by (meson order_trans)
  moreover have "lo cid \<le> lo e" using e(2) by (simp add: cell_contains_iff)
  moreover have "unat cid \<le> hi cid" using range_bounds[OF nz(2)] by simp
  ultimately have "lo cid \<le> unat (last out)" "unat (last out) \<le> hi cid" by linarith+
  then show ?thesis using point_in_range[OF lnz nz(2)] by simp
qed

lemma normalize_step_chain:
  assumes ch: "chain out" and nz: "0 \<notin> set out" "cid \<noteq> 0"
    and le: "\<forall>e \<in> set out. e \<le> cid"
  shows "chain (normalize_step out cid)"
    and "cover (normalize_step out cid) = cover out \<union> {lo cid..hi cid}"
    and "set (normalize_step out cid) \<subseteq> insert cid (set out)"
proof -
  have "chain (normalize_step out cid)
        \<and> cover (normalize_step out cid) = cover out \<union> {lo cid..hi cid}
        \<and> set (normalize_step out cid) \<subseteq> insert cid (set out)"
  proof (cases "out \<noteq> [] \<and> cell_contains (last out) cid")
    case True
    then have r: "normalize_step out cid = out" by (simp add: normalize_step_def)
    have "last out \<in> set out" using True by simp
    moreover have "{lo cid..hi cid} \<subseteq> {lo (last out)..hi (last out)}"
      using True by (auto simp: cell_contains_iff)
    ultimately have "{lo cid..hi cid} \<subseteq> cover out" by (auto simp: cover_def)
    then show ?thesis using r ch by auto
  next
    case False
    from discard_contained_spec[of cid out] obtain k where k:
      "discard_contained cid out = take k out"
      "\<forall>e \<in> set (drop k out). cell_contains cid e"
      "take k out = [] \<or> \<not> cell_contains cid (last (take k out))" by blast
    define out' where "out' = take k out"
    have sub: "set out' \<subseteq> set out" unfolding out'_def by (rule set_take_subset)
    have ch': "chain out'" unfolding out'_def using ch by (rule chain_take)
    have nz': "0 \<notin> set out'" using sub nz by auto
    have le': "\<forall>e \<in> set out'. e \<le> cid" using sub le by auto
    have nocont: "\<not> cell_contains e cid" if "e \<in> set out" for e
      using chain_last_only[OF ch nz le that] False that by auto
    have lt: "e < cid" if "e \<in> set out" for e
    proof -
      have "e \<noteq> cid" using nocont[OF that] cell_contains_refl by auto
      then show ?thesis using le that by auto
    qed
    have before: "hi e < lo cid" if "e \<in> set out'" for e
    proof -
      have eo: "e \<in> set out" using that sub by auto
      then have "e \<noteq> 0" using nz by auto
      moreover have "\<not> cell_contains cid e"
        using contained_suffix[OF ch' nz' nz(2) le' that] k(3) that unfolding out'_def by auto
      ultimately show ?thesis using ordered_disjoint[OF _ nz(2) lt[OF eo] nocont[OF eo]] by simp
    qed
    have "collapse out' cid = (out', cid)"
      using lt sub by (intro collapse_ascending) auto
    then have r: "normalize_step out cid = out' @ [cid]"
      using False k(1) by (auto simp: normalize_step_def out'_def)
    have c1: "chain (out' @ [cid])" using ch' before by (simp add: chain_append)
    have "cover (drop k out) \<subseteq> {lo cid..hi cid}"
      using k(2) by (auto simp: cover_def cell_contains_iff)
    moreover have "cover out = cover out' \<union> cover (drop k out)"
      unfolding out'_def by (metis append_take_drop_id cover_simps(3))
    ultimately have c2: "cover (out' @ [cid]) = cover out \<union> {lo cid..hi cid}" by auto
    show ?thesis using r c1 c2 sub by auto
  qed
  then show "chain (normalize_step out cid)"
    and "cover (normalize_step out cid) = cover out \<union> {lo cid..hi cid}"
    and "set (normalize_step out cid) \<subseteq> insert cid (set out)" by simp_all
qed

lemma foldl_normalize_step_chain:
  assumes "chain out" "0 \<notin> set out" "0 \<notin> set rest" "sorted rest"
    and "\<forall>e \<in> set out. \<forall>c \<in> set rest. e \<le> c"
  shows "chain (foldl normalize_step out rest)
         \<and> cover (foldl normalize_step out rest) = cover out \<union> cover rest
         \<and> set (foldl normalize_step out rest) \<subseteq> set out \<union> set rest"
  using assms
proof (induction rest arbitrary: out)
  case Nil
  then show ?case by simp
next
  case (Cons c rest)
  have c: "c \<noteq> 0" and le: "\<forall>e \<in> set out. e \<le> c" using Cons.prems by auto
  note st = normalize_step_chain[OF Cons.prems(1,2) c le]
  have "0 \<notin> set (normalize_step out c)" using st(3) Cons.prems(2) c by auto
  moreover have "\<forall>e \<in> set (normalize_step out c). \<forall>d \<in> set rest. e \<le> d"
    using st(3) Cons.prems(4,5) by auto
  moreover have "0 \<notin> set rest" "sorted rest" using Cons.prems by auto
  ultimately have IH: "chain (foldl normalize_step (normalize_step out c) rest)
         \<and> cover (foldl normalize_step (normalize_step out c) rest) = cover (normalize_step out c) \<union> cover rest
         \<and> set (foldl normalize_step (normalize_step out c) rest) \<subseteq> set (normalize_step out c) \<union> set rest"
    using st(1) by (intro Cons.IH)
  then show ?case using st(2,3) by auto
qed

lemma cover_sort [simp]: "cover (sort xs) = cover xs"
  by (simp add: cover_def)

lemma normalize_chain:
  assumes "0 \<notin> set xs"
  shows "chain (snd (normalize xs))" "cover (snd (normalize xs)) = cover xs"
    "set (snd (normalize xs)) \<subseteq> set xs"
    "snd (normalize xs) = foldl normalize_step [] (sort xs)"
proof -
  define out where "out = foldl normalize_step [] (sort xs)"
  have f: "chain out \<and> cover out = cover [] \<union> cover (sort xs) \<and> set out \<subseteq> set [] \<union> set (sort xs)"
    unfolding out_def using assms by (intro foldl_normalize_step_chain) simp_all
  then have ch: "chain out" and cv: "cover out = cover xs" and sub: "set out \<subseteq> set xs" by simp_all
  have nzo: "0 \<notin> set out" using sub assms by auto
  have so: "sorted_wrt (<) out" using chain_sorted[OF ch nzo] .
  then have d: "distinct out" "sorted out" by (simp_all add: strict_sorted_iff)
  have eq: "out = sort xs" if "\<not> length out < length xs"
  proof -
    have "length out = card (set out)" using d by (simp add: distinct_card)
    also have "\<dots> \<le> card (set xs)" using sub by (simp add: card_mono)
    also have "\<dots> \<le> length xs" by (rule card_length)
    finally have "card (set out) = card (set xs)" "card (set xs) = length xs"
      using that \<open>length out = card (set out)\<close> \<open>card (set out) \<le> card (set xs)\<close> card_length[of xs]
      by linarith+
    then have "set out = set xs" "distinct xs"
      using sub by (simp_all add: card_subset_eq card_distinct)
    then show ?thesis using d
      by (intro sorted_distinct_set_unique) simp_all
  qed
  have "snd (normalize xs) = out"
    using eq by (auto simp: normalize_def Let_def out_def)
  then show "chain (snd (normalize xs))" "cover (snd (normalize xs)) = cover xs"
    "set (snd (normalize xs)) \<subseteq> set xs" "snd (normalize xs) = foldl normalize_step [] (sort xs)"
    using ch cv sub by (simp_all add: out_def)
qed

section \<open>Valid identifiers\<close>

lemma lowestOnBitForLevel_nonzero: "lowestOnBitForLevel l \<noteq> 0"
proof -
  have "2 * (MAX_LEVEL - l) < 64" by (simp add: MAX_LEVEL_def)
  then have "bit (lowestOnBitForLevel l) (2 * (MAX_LEVEL - l))"
    unfolding lowestOnBitForLevel_def by (simp add: bit_push_bit_iff bit_exp_iff possible_bit_word)
  then show ?thesis by auto
qed

lemma isValid_nonzero: "isValid x \<Longrightarrow> x \<noteq> 0"
proof
  assume v: "isValid x" and "x = 0"
  then obtain l where "lowestOnBit x = lowestOnBitForLevel l"
    by (auto simp: isValid_def list_ex_iff)
  then show False using \<open>x = 0\<close> lowestOnBitForLevel_nonzero[of l] by (simp add: lowestOnBit_def)
qed

lemma all_valid_nonzero: "\<forall>c \<in> set xs. isValid c \<Longrightarrow> 0 \<notin> set xs"
  using isValid_nonzero by blast

lemma distinct_set_single:
  assumes "distinct xs" "set xs = {c}"
  shows "xs = [c]"
proof -
  have "length xs = card (set xs)" using assms(1) by (simp add: distinct_card)
  then have "length xs = 1" using assms(2) by simp
  then obtain a where "xs = [a]" by (cases xs) auto
  then show ?thesis using assms(2) by simp
qed

lemma two_elements:
  assumes "d \<in> set xs" "d \<noteq> c" "c \<in> set xs"
  shows "2 \<le> length xs"
proof -
  have "{c, d} \<subseteq> set xs" using assms by simp
  then have "card {c, d} \<le> card (set xs)" by (intro card_mono) simp_all
  moreover have "card {c, d} = 2" using assms(2) by simp
  ultimately show ?thesis using card_length[of xs] by linarith
qed

lemma is_normalized_chain:
  assumes "is_normalized u" "\<forall>c \<in> set u. isValid c"
  shows "chain u"
  using assms all_valid_nonzero[OF assms(2)]
  by (intro normalized_chain) (simp_all add: is_normalized_def)

section \<open>Counting leaf cells\<close>

lemma level_valid:
  assumes "isValid c"
  shows "level c \<le> MAX_LEVEL" "lowestOnBit c = lowestOnBitForLevel (level c)"
proof -
  define P where "P = (\<lambda>l. lowestOnBit c = lowestOnBitForLevel l)"
  have "\<exists>l \<in> set [0..<31]. P l" using assms unfolding isValid_def list_ex_iff P_def by blast
  then have "find P [0..<31] \<noteq> None" unfolding find_None_iff by blast
  then obtain l where l: "find P [0..<31] = Some l" by blast
  then have "P l" "l \<in> set [0..<31]" by (auto simp: find_Some_iff)
  moreover have "level c = l" using l by (simp add: level_def P_def)
  ultimately show "level c \<le> MAX_LEVEL" "lowestOnBit c = lowestOnBitForLevel (level c)"
    by (simp_all add: P_def MAX_LEVEL_def)
qed

lemma unat_push_bit_one:
  assumes "n < 64"
  shows "unat (push_bit n (1 :: 64 word)) = 2 ^ n"
proof -
  have "unat (push_bit n (1 :: 64 word)) = take_bit LENGTH(64) (push_bit n (unat (1 :: 64 word)))"
    by (rule unsigned_push_bit_eq)
  also have "\<dots> = take_bit 64 ((2::nat) ^ n)" by simp
  also have "\<dots> = 2 ^ n" using assms by (simp add: take_bit_of_exp)
  finally show ?thesis .
qed

lemma unat_lowestOnBitForLevel: "unat (lowestOnBitForLevel l) = 2 ^ (2 * (MAX_LEVEL - l))"
  unfolding lowestOnBitForLevel_def by (rule unat_push_bit_one) (simp add: MAX_LEVEL_def)

lemma unat_leaf_term:
  "unat (shiftLeft 1 (2 * (MAX_LEVEL - l))) = 4 ^ (MAX_LEVEL - l)"
proof -
  have b: "2 * (MAX_LEVEL - l) < 64" by (simp add: MAX_LEVEL_def)
  then have "2 * (MAX_LEVEL - l) mod 64 = 2 * (MAX_LEVEL - l)" by simp
  then have "unat (shiftLeft 1 (2 * (MAX_LEVEL - l))) = 2 ^ (2 * (MAX_LEVEL - l))"
    unfolding shiftLeft_def using unat_push_bit_one[OF b] by simp
  then show ?thesis by (simp add: power_mult)
qed

lemma foldl_leaves_mod:
  "unat (foldl (\<lambda>numLeaves cid. numLeaves + shiftLeft 1 (2 * (MAX_LEVEL - level cid))) a u)
   = (unat a + sum_list (map (\<lambda>c. 4 ^ (MAX_LEVEL - level c)) u)) mod 2 ^ 64"
proof (induction u arbitrary: a)
  case Nil
  have "unat a < 2 ^ 64" using unsigned_less[of a, where 'a=nat] by simp
  then show ?case by simp
next
  case (Cons c u)
  have "unat (a + shiftLeft 1 (2 * (MAX_LEVEL - level c)))
        = (unat a + 4 ^ (MAX_LEVEL - level c)) mod 2 ^ 64"
    by (simp add: unat_word_ariths unat_leaf_term)
  then have "(unat (a + shiftLeft 1 (2 * (MAX_LEVEL - level c)))
               + sum_list (map (\<lambda>c. 4 ^ (MAX_LEVEL - level c)) u)) mod 2 ^ 64
             = (unat a + 4 ^ (MAX_LEVEL - level c)
               + sum_list (map (\<lambda>c. 4 ^ (MAX_LEVEL - level c)) u)) mod 2 ^ 64"
    by (simp only: mod_add_left_eq)
  then show ?case
    by (simp add: Cons.IH add.assoc)
qed

lemma leafCellsCovered_mod:
  "unat (leafCellsCovered u) = sum_list (map (\<lambda>c. 4 ^ (MAX_LEVEL - level c)) u) mod 2 ^ 64"
  unfolding leafCellsCovered_def Let_def by (simp add: foldl_leaves_mod)

lemma valid_shape:
  assumes "isValid c"
  shows "\<exists>q. unat c = (2*q+1) * 2 ^ (2 * (MAX_LEVEL - level c))
            \<and> lo c = 2*q * 2 ^ (2 * (MAX_LEVEL - level c)) + 1
            \<and> hi c + 1 = (2*q+2) * 2 ^ (2 * (MAX_LEVEL - level c))"
proof -
  have nz: "c \<noteq> 0" using assms by (rule isValid_nonzero)
  from cell_shape[OF nz] obtain k q where h: "unat c = (2*q+1) * 2^k" "unat (lowestOnBit c) = 2^k"
    "lo c = 2*q * 2^k + 1" "hi c + 1 = (2*q+2) * 2^k" by blast
  have "(2::nat)^k = 2 ^ (2 * (MAX_LEVEL - level c))"
    using h(2) level_valid(2)[OF assms] unat_lowestOnBitForLevel[of "level c"] by simp
  then have "k = 2 * (MAX_LEVEL - level c)" by simp
  then show ?thesis using h by blast
qed

lemma valid_upper:
  assumes "isValid c"
  shows "hi c + 1 \<le> 6 * 2 ^ 61"
proof -
  define j where "j = MAX_LEVEL - level c"
  from valid_shape[OF assms] obtain q where h: "unat c = (2*q+1) * 2 ^ (2 * j)"
    "hi c + 1 = (2*q+2) * 2 ^ (2 * j)" unfolding j_def by blast
  have j: "j \<le> 30" by (simp add: j_def MAX_LEVEL_def)
  have "face c < 6" using assms by (simp add: isValid_def)
  moreover have "face c = drop_bit 61 (unat c)" by (simp only: face_def unat_drop_bit_eq)
  then have "face c = unat c div 2 ^ 61" by (simp only: drop_bit_eq_div)
  ultimately have "unat c div 2 ^ 61 < 6" by simp
  then have lt: "unat c < 6 * 2 ^ 61" by (simp add: div_less_iff_less_mult)
  define M :: nat where "M = 2 ^ (60 - 2 * j)"
  have e: "(2::nat) ^ 61 = 2 * M * 2 ^ (2 * j)"
  proof -
    have "(61::nat) = Suc (60 - 2 * j + 2 * j)" using j by simp
    then have "(2::nat) ^ 61 = 2 ^ Suc (60 - 2 * j + 2 * j)" by simp
    also have "\<dots> = 2 * M * 2 ^ (2 * j)" unfolding M_def by (simp only: power_Suc power_add mult.assoc)
    finally show ?thesis .
  qed
  have "(2*q+1) * 2 ^ (2 * j) < (12 * M) * 2 ^ (2 * j)" using lt h(1) e by simp
  then have "2*q+1 < 12 * M" by (simp only: mult_less_cancel2)
  then have "2*q+2 \<le> 12 * M" by linarith
  then have "(2*q+2) * 2 ^ (2 * j) \<le> (12 * M) * 2 ^ (2 * j)" by (rule mult_le_mono1)
  then show ?thesis using h(2) e by simp
qed

lemma chain_leaves:
  assumes "chain xs" "\<forall>c \<in> set xs. isValid c" "xs \<noteq> []"
  shows "(lo (hd xs) - 1) + 2 * sum_list (map (\<lambda>c. 4 ^ (MAX_LEVEL - level c)) xs) \<le> hi (last xs) + 1"
  using assms
proof (induction xs)
  case Nil
  then show ?case by simp
next
  case (Cons x xs)
  from valid_shape[of x] Cons.prems(2) obtain q where x:
    "lo x = 2*q * 2 ^ (2 * (MAX_LEVEL - level x)) + 1"
    "hi x + 1 = (2*q+2) * 2 ^ (2 * (MAX_LEVEL - level x))" by auto
  have w: "(4::nat) ^ (MAX_LEVEL - level x) = 2 ^ (2 * (MAX_LEVEL - level x))"
    by (simp add: power_mult)
  have one: "(lo x - 1) + 2 * 4 ^ (MAX_LEVEL - level x) = hi x + 1"
    unfolding w using x by (simp add: algebra_simps)
  show ?case
  proof (cases xs)
    case Nil
    then show ?thesis using one by simp
  next
    case (Cons y ys)
    have IH: "(lo (hd xs) - 1) + 2 * sum_list (map (\<lambda>c. 4 ^ (MAX_LEVEL - level c)) xs) \<le> hi (last xs) + 1"
      using Cons.IH Cons.prems Cons by simp
    have "hi x < lo y" using Cons.prems(1) Cons by simp
    moreover have "even (hi x + 1)" using x(2) by simp
    moreover from valid_shape[of y] Cons.prems(2) Cons obtain q' where
      "lo y = 2*q' * 2 ^ (2 * (MAX_LEVEL - level y)) + 1" by auto
    then have "odd (lo y)" by simp
    ultimately have "hi x + 1 \<le> lo y - 1"
      by (metis Suc_leI add.commute add_diff_cancel_left' le_neq_implies_less less_imp_diff_less
          less_or_eq_imp_le not_less_eq_eq odd_pos plus_1_eq_Suc even_Suc Suc_diff_1 Suc_eq_plus1)
    then show ?thesis using IH one Cons by simp
  qed
qed

lemma normalized_leaves_bound:
  assumes "is_normalized u" "\<forall>c \<in> set u. isValid c"
  shows "sum_list (map (\<lambda>c. 4 ^ (MAX_LEVEL - level c)) u) \<le> (6 * 4 ^ 30 :: nat)"
proof (cases "u = []")
  case True
  then show ?thesis by simp
next
  case False
  have ch: "chain u" using assms by (rule is_normalized_chain)
  have "last u \<in> set u" using False by simp
  then have "hi (last u) + 1 \<le> 6 * 2 ^ 61" using assms(2) valid_upper by blast
  then have "2 * sum_list (map (\<lambda>c. 4 ^ (MAX_LEVEL - level c)) u) \<le> (6 * 2 ^ 61 :: nat)"
    using chain_leaves[OF ch assms(2) False] by linarith
  then show ?thesis by simp
qed

section \<open>The scan of expand\<close>

text \<open>The do-while loop over the indices computes the scan over the reversed sequence.\<close>

lemma rev_take_Suc:
  "n < length xs \<Longrightarrow> rev (take (Suc n) xs) = xs ! n # rev (take n xs)"
  by (simp add: take_Suc_conv_app_nth)

lemma skip_contained_spec:
  assumes "0 \<le> i" "i < int (length cellIds)"
  shows "\<exists>i'. skip_contained cellIds p i = Inr i' \<and> 0 \<le> i' \<and> i' \<le> i
           \<and> dropWhile (cell_contains p) (rev (take (nat i) cellIds)) = rev (take (nat i') cellIds)"
  using assms
proof (induction cellIds p i rule: skip_contained.induct)
  case (1 cellIds p i)
  show ?case
  proof (cases "i > 0")
    case True
    then have c: "cellId cellIds (i - 1) = Some (cellIds ! nat (i - 1))"
      using "1.prems" by (simp add: cellId_def)
    have n: "nat i = Suc (nat (i - 1))" "nat (i - 1) < length cellIds"
      using True "1.prems" by simp_all
    have r: "rev (take (nat i) cellIds) = cellIds ! nat (i - 1) # rev (take (nat (i - 1)) cellIds)"
      unfolding n(1) using n(2) by (rule rev_take_Suc)
    show ?thesis
    proof (cases "cell_contains p (cellIds ! nat (i - 1))")
      case cont: True
      have "\<exists>i'. skip_contained cellIds p (i - 1) = Inr i' \<and> 0 \<le> i' \<and> i' \<le> i - 1
           \<and> dropWhile (cell_contains p) (rev (take (nat (i - 1)) cellIds)) = rev (take (nat i') cellIds)"
        using "1.IH"[OF True c cont] True "1.prems" by simp
      then obtain i' where i': "skip_contained cellIds p (i - 1) = Inr i'" "0 \<le> i'" "i' \<le> i - 1"
        "dropWhile (cell_contains p) (rev (take (nat (i - 1)) cellIds)) = rev (take (nat i') cellIds)"
        by blast
      have "skip_contained cellIds p i = Inr i'"
        using True c cont i'(1) by (subst skip_contained.simps) simp
      moreover have "dropWhile (cell_contains p) (rev (take (nat i) cellIds)) = rev (take (nat i') cellIds)"
        unfolding r using cont i'(4) by simp
      ultimately show ?thesis using i'(2,3) by auto
    next
      case False
      have "skip_contained cellIds p i = Inr i"
        using True c False by (subst skip_contained.simps) simp
      moreover have "dropWhile (cell_contains p) (rev (take (nat i) cellIds)) = rev (take (nat i) cellIds)"
        unfolding r using False by simp
      ultimately show ?thesis using "1.prems" by auto
    qed
  next
    case False
    then have "i = 0" using "1.prems" by simp
    moreover have "skip_contained cellIds p i = Inr i"
      using False by (subst skip_contained.simps) simp
    ultimately show ?thesis by simp
  qed
qed

lemma expand_loop_spec:
  assumes "0 \<le> i" "i < int (length cellIds)"
  shows "expand_loop g lvl cellIds i out = Inr (out @ expand_spec g lvl (rev (take (Suc (nat i)) cellIds)))"
  using assms
proof (induction g lvl cellIds i out rule: expand_loop.induct)
  case (1 g lvl cellIds i out)
  define c where "c = cellIds ! nat i"
  have cid: "cellId cellIds i = Some c" using "1.prems" by (simp add: cellId_def c_def)
  have r: "rev (take (Suc (nat i)) cellIds) = c # rev (take (nat i) cellIds)"
    unfolding c_def using "1.prems" by (intro rev_take_Suc) simp
  obtain e i' where pick: "expand_pick lvl cellIds i = Inr (e, i')" and i': "0 \<le> i'" "i' \<le> i"
    and e: "e # g e lvl @ expand_spec g lvl (rev (take (nat i') cellIds))
            = expand_spec g lvl (c # rev (take (nat i) cellIds))"
  proof (cases "lowestOnBit c < lowestOnBitForLevel lvl")
    case True
    from skip_contained_spec[OF "1.prems", of "parentL c lvl"] obtain i' where
      s: "skip_contained cellIds (parentL c lvl) i = Inr i'" "0 \<le> i'" "i' \<le> i"
      "dropWhile (cell_contains (parentL c lvl)) (rev (take (nat i) cellIds)) = rev (take (nat i') cellIds)"
      by blast
    have "expand_pick lvl cellIds i = Inr (parentL c lvl, i')"
      using cid True s(1) by (simp add: expand_pick_def)
    moreover have "parentL c lvl # g (parentL c lvl) lvl @ expand_spec g lvl (rev (take (nat i') cellIds))
            = expand_spec g lvl (c # rev (take (nat i) cellIds))"
      using True s(4) by simp
    ultimately show ?thesis using that s(2,3) by blast
  next
    case False
    have "expand_pick lvl cellIds i = Inr (c, i)"
      using cid False by (simp add: expand_pick_def)
    moreover have "c # g c lvl @ expand_spec g lvl (rev (take (nat i) cellIds))
            = expand_spec g lvl (c # rev (take (nat i) cellIds))"
      using False by simp
    ultimately show ?thesis using that "1.prems" by blast
  qed
  show ?case
  proof (cases "i' - 1 \<ge> 0")
    case True
    have "expand_loop g lvl cellIds (i' - 1) ((out @ [e]) @ g e lvl)
          = Inr (((out @ [e]) @ g e lvl) @ expand_spec g lvl (rev (take (Suc (nat (i' - 1))) cellIds)))"
      using "1.IH"[OF pick refl True] True i' "1.prems" by simp
    moreover have "Suc (nat (i' - 1)) = nat i'" using True by simp
    ultimately have "expand_loop g lvl cellIds i out
          = Inr (((out @ [e]) @ g e lvl) @ expand_spec g lvl (rev (take (nat i') cellIds)))"
      using pick True by (subst expand_loop.simps) simp
    then show ?thesis unfolding r e[symmetric] by simp
  next
    case False
    then have z: "nat i' = 0" using i' by simp
    have "expand_loop g lvl cellIds i out = Inr ((out @ [e]) @ g e lvl)"
      using pick False by (subst expand_loop.simps) simp
    then show ?thesis unfolding r e[symmetric] z by simp
  qed
qed

lemma expand_loop_all:
  assumes "cellIds \<noteq> []"
  shows "expand_loop g lvl cellIds (int (length cellIds) - 1) [] = Inr (expand_spec g lvl (rev cellIds))"
proof -
  have "0 \<le> int (length cellIds) - 1" "int (length cellIds) - 1 < int (length cellIds)"
    using assms by (cases cellIds; simp)+
  from expand_loop_spec[OF this, of g lvl "[]"]
  have "expand_loop g lvl cellIds (int (length cellIds) - 1) []
          = Inr (expand_spec g lvl (rev (take (Suc (nat (int (length cellIds) - 1))) cellIds)))" by simp
  moreover have "Suc (nat (int (length cellIds) - 1)) = length cellIds"
    using assms by (cases cellIds) simp_all
  ultimately show ?thesis by simp
qed

section \<open>Binary search and containment in a union\<close>

lemma search_loop_spec:
  assumes "sorted_wrt (<) ids" "0 \<le> low" "high < int (length ids)"
  shows "low \<le> snd (search_loop ids key low high)
       \<and> snd (search_loop ids key low high) \<le> max low (high + 1)
       \<and> (\<forall>i. low \<le> i \<and> i < snd (search_loop ids key low high) \<longrightarrow> ids ! nat i < key)
       \<and> (\<forall>i. snd (search_loop ids key low high) \<le> i \<and> i \<le> high \<longrightarrow> key \<le> ids ! nat i)"
  using assms
proof (induction ids key low high rule: search_loop.induct)
  case (1 ids key low high)
  show ?case
  proof (cases "low \<le> high")
    case False
    then have "search_loop ids key low high = (False, low)" by (subst search_loop.simps) simp
    then show ?thesis using False by auto
  next
    case True
    define mid where "mid = (low + high) div 2"
    have mid: "low \<le> mid" "mid \<le> high" using True by (simp_all add: mid_def)
    have mono: "ids ! nat i < ids ! nat j" if "0 \<le> i" "i < j" "j < int (length ids)" for i j
    proof -
      have "nat i < nat j" "nat j < length ids" using that by simp_all
      then show ?thesis using "1.prems"(1) by (simp add: sorted_wrt_iff_nth_less)
    qed
    have eq: "search_loop ids key low high =
            (if ids ! nat mid < key then search_loop ids key (mid + 1) high
             else if key < ids ! nat mid then search_loop ids key low (mid - 1)
             else (True, mid))"
      using True by (subst search_loop.simps) (simp add: Let_def mid_def)
    consider (up) "ids ! nat mid < key" | (down) "key < ids ! nat mid" | (found) "ids ! nat mid = key"
      by fastforce
    then show ?thesis
    proof cases
      case up
      define r where "r = snd (search_loop ids key (mid + 1) high)"
      have IH: "mid + 1 \<le> r \<and> r \<le> max (mid + 1) (high + 1)
            \<and> (\<forall>i. mid + 1 \<le> i \<and> i < r \<longrightarrow> ids ! nat i < key)
            \<and> (\<forall>i. r \<le> i \<and> i \<le> high \<longrightarrow> key \<le> ids ! nat i)"
        unfolding r_def using "1.IH"(1)[OF True refl refl] up "1.prems" mid
        by (simp add: mid_def)
      have r: "snd (search_loop ids key low high) = r" using eq up by (simp add: r_def)
      have "ids ! nat i < key" if "low \<le> i" "i < r" for i
      proof (cases "i \<le> mid")
        case True
        then have "ids ! nat i \<le> ids ! nat mid"
          using mono[of i mid] that "1.prems" mid by (cases "i = mid") auto
        then show ?thesis using up by simp
      next
        case False
        then show ?thesis using IH that by simp
      qed
      then show ?thesis unfolding r using IH mid by auto
    next
      case down
      define r where "r = snd (search_loop ids key low (mid - 1))"
      have IH: "low \<le> r \<and> r \<le> max low (mid - 1 + 1)
            \<and> (\<forall>i. low \<le> i \<and> i < r \<longrightarrow> ids ! nat i < key)
            \<and> (\<forall>i. r \<le> i \<and> i \<le> mid - 1 \<longrightarrow> key \<le> ids ! nat i)"
        unfolding r_def using "1.IH"(2)[OF True refl refl] down "1.prems" mid
        by (simp add: mid_def)
      have "\<not> ids ! nat mid < key" using down by simp
      then have r: "snd (search_loop ids key low high) = r" using eq down by (simp add: r_def)
      have "key \<le> ids ! nat i" if "r \<le> i" "i \<le> high" for i
      proof (cases "i \<le> mid - 1")
        case True
        then show ?thesis using IH that by simp
      next
        case False
        then have "ids ! nat mid \<le> ids ! nat i"
          using mono[of mid i] that "1.prems" mid by (cases "i = mid") auto
        then show ?thesis using down by simp
      qed
      then show ?thesis unfolding r using IH mid by auto
    next
      case found
      have r: "snd (search_loop ids key low high) = mid" using eq found by simp
      have "ids ! nat i < key" if "low \<le> i" "i < mid" for i
        using mono[of i mid] that "1.prems" mid found by simp
      moreover have "key \<le> ids ! nat i" if "mid \<le> i" "i \<le> high" for i
        using mono[of mid i] that "1.prems" mid found by (cases "i = mid") auto
      ultimately show ?thesis unfolding r using mid by auto
    qed
  qed
qed

lemma binarySearch_pos:
  "(let pos0 = binarySearch ids key in if pos0 < 0 then - pos0 - 1 else pos0)
     = snd (search_loop ids key 0 (int (length ids) - 1))"
proof -
  obtain a b where ab: "search_loop ids key 0 (int (length ids) - 1) = (a, b)" by fastforce
  have "0 \<le> snd (search_loop ids key 0 (int (length ids) - 1))" by (rule search_loop_lower)
  then have "0 \<le> b" using ab by simp
  then show ?thesis using ab by (cases a) (simp_all add: binarySearch_def Let_def)
qed

text \<open>The insertion point of a key in a strictly ascending sequence.\<close>

lemma insertion_point:
  assumes "sorted_wrt (<) ids"
  obtains r where "r \<le> length ids"
    and "snd (search_loop ids key 0 (int (length ids) - 1)) = int r"
    and "\<And>n. n < r \<Longrightarrow> ids ! n < key"
    and "\<And>n. r \<le> n \<Longrightarrow> n < length ids \<Longrightarrow> key \<le> ids ! n"
proof -
  define p where "p = snd (search_loop ids key 0 (int (length ids) - 1))"
  have s: "0 \<le> p \<and> p \<le> max 0 (int (length ids) - 1 + 1)
       \<and> (\<forall>i. 0 \<le> i \<and> i < p \<longrightarrow> ids ! nat i < key)
       \<and> (\<forall>i. p \<le> i \<and> i \<le> int (length ids) - 1 \<longrightarrow> key \<le> ids ! nat i)"
    unfolding p_def using assms by (intro search_loop_spec) simp_all
  show ?thesis
  proof (rule that[of "nat p"])
    show "nat p \<le> length ids" using s by (simp add: nat_le_iff)
    show "snd (search_loop ids key 0 (int (length ids) - 1)) = int (nat p)" using s by (simp add: p_def)
    show "ids ! n < key" if "n < nat p" for n
    proof -
      have "0 \<le> int n \<and> int n < p" using that by simp
      then have "ids ! nat (int n) < key" using s by blast
      then show ?thesis by simp
    qed
    show "key \<le> ids ! n" if "nat p \<le> n" "n < length ids" for n
    proof -
      have "p \<le> int n \<and> int n \<le> int (length ids) - 1" using that by simp
      then have "key \<le> ids ! nat (int n)" using s by blast
      then show ?thesis by simp
    qed
  qed
qed

lemma contains_pos:
  assumes "snd (search_loop ids key 0 (int (length ids) - 1)) = int r"
  shows "contains ids key \<longleftrightarrow>
           (r < length ids \<and> rangeMin (ids ! r) \<le> key) \<or> (r \<noteq> 0 \<and> key \<le> rangeMax (ids ! (r - 1)))"
proof -
  have p: "(let pos0 = binarySearch ids key in if pos0 < 0 then - pos0 - 1 else pos0) = int r"
    using binarySearch_pos[of ids key] assms by simp
  have n: "nat (int r - 1) = r - 1" by simp
  show ?thesis
    unfolding contains_def using p by (auto simp: Let_def n)
qed

lemma chain_nth:
  assumes "chain xs" "m < n" "n < length xs"
  shows "hi (xs ! m) < lo (xs ! n)"
  using assms by (simp add: chain_def sorted_wrt_iff_nth_less)

lemma contains_iff:
  assumes ch: "chain ids" and nz: "0 \<notin> set ids" and k: "key \<noteq> 0"
  shows "contains ids key \<longleftrightarrow> (\<exists>c \<in> set ids. cell_contains c key)"
proof -
  have srt: "sorted_wrt (<) ids" using chain_sorted[OF ch nz] .
  from insertion_point[OF srt, of key] obtain r where r: "r \<le> length ids"
    "snd (search_loop ids key 0 (int (length ids) - 1)) = int r"
    "\<And>n. n < r \<Longrightarrow> ids ! n < key"
    "\<And>n. r \<le> n \<Longrightarrow> n < length ids \<Longrightarrow> key \<le> ids ! n" by blast
  note cp = contains_pos[OF r(2)]
  have nzn: "ids ! n \<noteq> 0" if "n < length ids" for n using nz that nth_mem by fastforce
  show ?thesis
  proof
    assume "contains ids key"
    then consider (a) "r < length ids" "rangeMin (ids ! r) \<le> key"
      | (b) "r \<noteq> 0" "key \<le> rangeMax (ids ! (r - 1))" using cp by blast
    then show "\<exists>c \<in> set ids. cell_contains c key"
    proof cases
      case a
      have "key \<le> ids ! r" using r(4)[of r] a(1) by simp
      then have "unat key \<le> unat (ids ! r)" by (simp add: word_le_nat_alt)
      then have "unat key \<le> hi (ids ! r)" using range_bounds(2)[OF nzn[OF a(1)]] by linarith
      moreover have "lo (ids ! r) \<le> unat key" using a(2) by (simp add: lo_def word_le_nat_alt)
      ultimately have "cell_contains (ids ! r) key" using point_in_range[OF k nzn[OF a(1)]] by simp
      then show ?thesis using a(1) nth_mem by blast
    next
      case b
      have lt: "r - 1 < length ids" "r - 1 < r" using b(1) r(1) by simp_all
      have "ids ! (r - 1) < key" using r(3)[OF lt(2)] .
      then have "unat (ids ! (r - 1)) < unat key" by (simp add: word_less_nat_alt)
      then have "lo (ids ! (r - 1)) \<le> unat key" using range_bounds(1)[OF nzn[OF lt(1)]] by linarith
      moreover have "unat key \<le> hi (ids ! (r - 1))" using b(2) by (simp add: hi_def word_le_nat_alt)
      ultimately have "cell_contains (ids ! (r - 1)) key" using point_in_range[OF k nzn[OF lt(1)]] by simp
      then show ?thesis using lt(1) nth_mem by blast
    qed
  next
    assume "\<exists>c \<in> set ids. cell_contains c key"
    then obtain n where n: "n < length ids" "cell_contains (ids ! n) key"
      by (auto simp: in_set_conv_nth)
    have pt: "lo (ids ! n) \<le> unat key" "unat key \<le> hi (ids ! n)"
      using cell_contains_point[OF k n(2)] by simp_all
    show "contains ids key"
    proof (cases "r \<le> n")
      case True
      have "n = r"
      proof (rule ccontr)
        assume "n \<noteq> r"
        then have "r < n" using True by simp
        then have "hi (ids ! r) < lo (ids ! n)" using chain_nth[OF ch _ n(1)] by simp
        moreover have "key \<le> ids ! r" using r(4)[of r] \<open>r < n\<close> n(1) by simp
        then have "unat key \<le> unat (ids ! r)" by (simp add: word_le_nat_alt)
        moreover have "unat (ids ! r) \<le> hi (ids ! r)"
          using range_bounds(2)[OF nzn] \<open>r < n\<close> n(1) by simp
        ultimately show False using pt(1) by linarith
      qed
      then have "r < length ids \<and> rangeMin (ids ! r) \<le> key"
        using n(1) pt(1) by (simp add: lo_def word_le_nat_alt)
      then show ?thesis using cp by blast
    next
      case False
      then have nr: "n < r" by simp
      have "n = r - 1"
      proof (rule ccontr)
        assume "n \<noteq> r - 1"
        then have lt: "n < r - 1" "r - 1 < length ids" "r - 1 < r" using nr r(1) by simp_all
        then have "hi (ids ! n) < lo (ids ! (r - 1))" using chain_nth[OF ch lt(1,2)] by simp
        moreover have "ids ! (r - 1) < key" using r(3)[OF lt(3)] .
        then have "unat (ids ! (r - 1)) < unat key" by (simp add: word_less_nat_alt)
        moreover have "lo (ids ! (r - 1)) \<le> unat (ids ! (r - 1))"
          using range_bounds(1)[OF nzn[OF lt(2)]] .
        ultimately show False using pt(2) by linarith
      qed
      then have "r \<noteq> 0 \<and> key \<le> rangeMax (ids ! (r - 1))"
        using nr pt(2) by (simp add: hi_def word_le_nat_alt)
      then show ?thesis using cp by blast
    qed
  qed
qed

section \<open>Ancestors\<close>

text \<open>The value of the ancestor formula: the bits below the new lowest set bit are
  cleared and that bit is set.\<close>

lemma unat_ancestor:
  fixes c :: cellid
  assumes "K < 64"
  shows "unat ((c AND - (2 ^ K)) OR 2 ^ K) = (2 * (unat c div 2 ^ Suc K) + 1) * 2 ^ K"
proof -
  have "unat ((c AND - (2 ^ K)) OR 2 ^ K) = push_bit K (1 OR 2 * drop_bit (Suc K) (unat c))"
  proof (rule bit_eqI)
    fix n
    show "bit (unat ((c AND - (2 ^ K)) OR 2 ^ K)) n
          = bit (push_bit K (1 OR 2 * drop_bit (Suc K) (unat c))) n"
    proof (cases "n < 64")
      case True
      have e: "K < n \<Longrightarrow> Suc (K + (n - Suc K)) = n" by simp
      from True show ?thesis using assms
        by (auto simp: bit_unsigned_iff bit_or_iff bit_and_iff bit_minus_exp_iff bit_exp_iff
            bit_push_bit_iff bit_drop_bit_eq bit_1_iff bit_double_iff possible_bit_word
            le_eq_less_or_eq e)
    next
      case False
      then have "\<not> bit c n" using bit_imp_le_length[of c n] by auto
      then show ?thesis using assms False
        by (auto simp: bit_unsigned_iff bit_or_iff bit_and_iff bit_minus_exp_iff bit_exp_iff
            bit_push_bit_iff bit_drop_bit_eq bit_1_iff bit_double_iff possible_bit_word)
    qed
  qed
  also have "\<dots> = push_bit K (2 * drop_bit (Suc K) (unat c) + 1)"
    by (subst one_or_eq) simp
  also have "\<dots> = (2 * (unat c div 2 ^ Suc K) + 1) * 2 ^ K"
    by (simp only: push_bit_eq_mult drop_bit_eq_div)
  finally show ?thesis .
qed

section \<open>What expand covers\<close>

lemma lowestOnBitForLevel_exp: "lowestOnBitForLevel l = 2 ^ (2 * (MAX_LEVEL - l))"
  by (simp add: lowestOnBitForLevel_def push_bit_of_1)



lemma cover_mono_set: "set xs \<subseteq> set ys \<Longrightarrow> cover xs \<subseteq> cover ys"
  by (auto simp: cover_def)




lemma contains_cover:
  assumes "chain ids" "0 \<notin> set ids" "key \<noteq> 0"
  shows "contains ids key \<longleftrightarrow> unat key \<in> cover ids"
proof -
  have "(\<exists>c \<in> set ids. cell_contains c key) \<longleftrightarrow> unat key \<in> cover ids"
  proof
    assume "\<exists>c \<in> set ids. cell_contains c key"
    then obtain c where "c \<in> set ids" "cell_contains c key" by blast
    then show "unat key \<in> cover ids"
      using cell_contains_point[OF assms(3)] by (auto simp: cover_def)
  next
    assume "unat key \<in> cover ids"
    then obtain c where c: "c \<in> set ids" "lo c \<le> unat key" "unat key \<le> hi c"
      by (auto simp: cover_def)
    then have "c \<noteq> 0" using assms(2) by auto
    then show "\<exists>c \<in> set ids. cell_contains c key"
      using point_in_range[OF assms(3) _ c(2,3)] c(1) by blast
  qed
  then show ?thesis using contains_iff[OF assms] by simp
qed

section \<open>The sweep of getIntersectionUU\<close>

lemma isect_ok_sym: "isect_ok x y i j r \<longleftrightarrow> isect_ok y x j i r"
  unfolding isect_ok_def by (simp add: Int_commute) blast

lemma drop_nth_cons: "i < length x \<Longrightarrow> drop i x = x ! i # drop (Suc i) x"
  by (simp add: Cons_nth_drop_Suc)

lemma chain_drop: "chain x \<Longrightarrow> chain (drop i x)"
  by (metis append_take_drop_id chain_append)

lemma range_nonempty: "c \<noteq> 0 \<Longrightarrow> lo c \<le> hi c"
  using range_bounds(1,2)[of c] by linarith

lemma isect_ok_emit:
  assumes chx: "chain x" and nzx: "0 \<notin> set x" and i: "i < length x" and j: "j < length y"
    and cont: "cell_contains (y ! j) (x ! i)"
    and ok: "isect_ok x y (Suc i) j r"
  shows "isect_ok x y i j (x ! i # r)"
proof -
  have dx: "drop i x = x ! i # drop (Suc i) x" using i by (rule drop_nth_cons)
  have yj: "y ! j \<in> set (drop j y)" using j by (simp add: drop_nth_cons[of j y])
  have cv: "cover r = cover (drop (Suc i) x) \<inter> cover (drop j y)" and ch: "chain r"
    and pr: "\<forall>e \<in> set r. (e \<in> set (drop (Suc i) x) \<and> (\<exists>b \<in> set (drop j y). cell_contains b e))
                    \<or> (e \<in> set (drop j y) \<and> (\<exists>a \<in> set (drop (Suc i) x). cell_contains a e))"
    using ok unfolding isect_ok_def by simp_all
  have "{lo (x ! i)..hi (x ! i)} \<subseteq> {lo (y ! j)..hi (y ! j)}"
    using cont by (auto simp: cell_contains_iff)
  then have "{lo (x ! i)..hi (x ! i)} \<subseteq> cover (drop j y)" using yj by (auto simp: cover_def)
  then have c1: "cover (x ! i # r) = cover (drop i x) \<inter> cover (drop j y)"
    unfolding dx using cv by auto
  have chd: "chain (x ! i # drop (Suc i) x)" using chain_drop[OF chx, of i] dx by simp
  have after: "hi (x ! i) < lo e" if "e \<in> set r" for e
  proof -
    from pr that obtain a where a: "a \<in> set (drop (Suc i) x)" "cell_contains a e"
      using cell_contains_refl by blast
    have "hi (x ! i) < lo a" using chd a(1) by simp
    then show ?thesis using a(2) by (simp add: cell_contains_iff)
  qed
  have c2: "chain (x ! i # r)" using ch after by simp
  have c3: "\<forall>e \<in> set (x ! i # r). (e \<in> set (drop i x) \<and> (\<exists>b \<in> set (drop j y). cell_contains b e))
                    \<or> (e \<in> set (drop j y) \<and> (\<exists>a \<in> set (drop i x). cell_contains a e))"
    unfolding dx using pr cont yj by auto
  show ?thesis unfolding isect_ok_def using c1 c2 c3 by simp
qed

lemma isect_ok_skip:
  assumes i: "i < length x" and jj: "j \<le> j'" "j' \<le> length y"
    and chx: "chain x" and nzx: "0 \<notin> set x"
    and before: "\<forall>n. j \<le> n \<and> n < j' \<longrightarrow> hi (y ! n) < lo (x ! i)"
    and ok: "isect_ok x y i j' r"
  shows "isect_ok x y i j r"
proof -
  have dx: "drop i x = x ! i # drop (Suc i) x" using i by (rule drop_nth_cons)
  have chd: "chain (x ! i # drop (Suc i) x)" using chain_drop[OF chx, of i] dx by simp
  have low: "lo (x ! i) \<le> p" if "p \<in> cover (drop i x)" for p
  proof -
    from that obtain a where a: "a \<in> set (drop i x)" "lo a \<le> p" "p \<le> hi a" by (auto simp: cover_def)
    have "a \<noteq> 0" using a(1) nzx by (meson in_set_dropD)
    then have "lo a \<le> hi a" by (rule range_nonempty)
    have "a = x ! i \<or> hi (x ! i) < lo a" using a(1) chd unfolding dx by auto
    moreover have "x ! i \<noteq> 0" using i nzx nth_mem by fastforce
    then have "lo (x ! i) \<le> hi (x ! i)" by (rule range_nonempty)
    ultimately show ?thesis using a(2) by auto
  qed
  have split: "drop j y = take (j' - j) (drop j y) @ drop j' y"
    using jj by (metis append_take_drop_id drop_drop le_add_diff_inverse2 add.commute)
  have sk: "hi b < lo (x ! i)" if "b \<in> set (take (j' - j) (drop j y))" for b
  proof -
    from that obtain n where n: "n < length (take (j' - j) (drop j y))" "b = take (j' - j) (drop j y) ! n"
      by (auto simp: in_set_conv_nth)
    then have "n < j' - j" "j + n < length y" using jj by simp_all
    then have "b = y ! (j + n)" using n by simp
    moreover have "j \<le> j + n \<and> j + n < j'" using \<open>n < j' - j\<close> by simp
    ultimately show ?thesis using before by blast
  qed
  have disj: "cover (take (j' - j) (drop j y)) \<inter> cover (drop i x) = {}"
  proof -
    have False if "p \<in> cover (take (j' - j) (drop j y))" "p \<in> cover (drop i x)" for p
    proof -
      from that(1) obtain b where b: "b \<in> set (take (j' - j) (drop j y))" "p \<le> hi b"
        unfolding cover_def by auto
      have "hi b < lo (x ! i)" using sk[OF b(1)] .
      moreover have "lo (x ! i) \<le> p" using low[OF that(2)] .
      ultimately show False using b(2) by linarith
    qed
    then show ?thesis by blast
  qed
  have "cover (drop j y) = cover (take (j' - j) (drop j y)) \<union> cover (drop j' y)"
    using split by (metis cover_simps(3))
  then have ceq: "cover (drop i x) \<inter> cover (drop j y) = cover (drop i x) \<inter> cover (drop j' y)"
    using disj by blast
  have sub: "set (drop j' y) \<subseteq> set (drop j y)" using jj(1) by (rule set_drop_subset_set_drop)
  show ?thesis
    using ok sub unfolding isect_ok_def ceq by blast
qed

lemma indexedBinarySearch_spec:
  assumes "sorted_wrt (<) ids" "low \<le> length ids"
  shows "low \<le> indexedBinarySearch ids key low"
    and "indexedBinarySearch ids key low \<le> length ids"
    and "\<And>n. low \<le> n \<Longrightarrow> n < indexedBinarySearch ids key low \<Longrightarrow> ids ! n < key"
    and "\<And>n. indexedBinarySearch ids key low \<le> n \<Longrightarrow> n < length ids \<Longrightarrow> key \<le> ids ! n"
proof -
  define p where "p = snd (search_loop ids key (int low) (int (length ids) - 1))"
  have s: "int low \<le> p \<and> p \<le> max (int low) (int (length ids) - 1 + 1)
       \<and> (\<forall>i. int low \<le> i \<and> i < p \<longrightarrow> ids ! nat i < key)
       \<and> (\<forall>i. p \<le> i \<and> i \<le> int (length ids) - 1 \<longrightarrow> key \<le> ids ! nat i)"
    unfolding p_def using assms(1) by (intro search_loop_spec) simp_all
  have r: "indexedBinarySearch ids key low = nat p" by (simp add: indexedBinarySearch_def p_def)
  show "low \<le> indexedBinarySearch ids key low" unfolding r using s by linarith
  show "indexedBinarySearch ids key low \<le> length ids" unfolding r using s assms(2) by (simp add: nat_le_iff)
  show "ids ! n < key" if "low \<le> n" "n < indexedBinarySearch ids key low" for n
  proof -
    have "int low \<le> int n \<and> int n < p" using that unfolding r by linarith
    then have "ids ! nat (int n) < key" using s by blast
    then show ?thesis by simp
  qed
  show "key \<le> ids ! n" if "indexedBinarySearch ids key low \<le> n" "n < length ids" for n
  proof -
    have "p \<le> int n \<and> int n \<le> int (length ids) - 1" using that unfolding r by linarith
    then have "key \<le> ids ! nat (int n)" using s by blast
    then show ?thesis by simp
  qed
qed

lemma before_or_contains:
  assumes "a \<noteq> 0" "b \<noteq> 0" "lo b < lo a"
  shows "unat a \<le> hi b \<Longrightarrow> cell_contains b a" and "hi b < unat a \<Longrightarrow> hi b < lo a"
proof -
  have ba: "lo a \<le> unat a" "unat a \<le> hi a" using range_bounds[OF assms(1)] by simp_all
  show "cell_contains b a" if "unat a \<le> hi b"
    using point_in_range[OF assms(1,2)] that assms(3) ba by simp
  show "hi b < lo a" if "hi b < unat a"
    using laminar[OF assms(2,1)] that assms(3) ba by linarith
qed

lemma same_lo:
  assumes "a \<noteq> 0" "b \<noteq> 0" "lo a = lo b"
  shows "a < b \<Longrightarrow> cell_contains b a" and "\<not> a < b \<Longrightarrow> cell_contains a b"
proof -
  have s: "lo a + hi a = 2 * unat a" "lo b + hi b = 2 * unat b"
    using range_bounds(3)[OF assms(1)] range_bounds(3)[OF assms(2)] by simp_all
  show "cell_contains b a" if "a < b"
  proof -
    have "unat a < unat b" using that by (simp add: word_less_nat_alt)
    then show ?thesis using s assms(3) by (simp add: cell_contains_iff)
  qed
  show "cell_contains a b" if "\<not> a < b"
  proof -
    have "unat b \<le> unat a" using that by (simp add: word_less_nat_alt)
    then show ?thesis using s assms(3) by (simp add: cell_contains_iff)
  qed
qed

lemma skip_facts:
  assumes ch: "chain y" and nz: "0 \<notin> set y" and a: "a \<noteq> 0" and j: "j < length y"
    and lt: "lo (y ! j) < lo a" and far: "hi (y ! j) < unat a"
  defines "r \<equiv> indexedBinarySearch y (rangeMin a) (Suc j)"
  shows "Suc j \<le> r" and "r \<le> length y"
    and "\<And>n. j \<le> n \<Longrightarrow> n < r - 1 \<Longrightarrow> hi (y ! n) < lo a"
    and "\<not> unat a \<le> hi (y ! (r - 1)) \<Longrightarrow> hi (y ! (r - 1)) < lo a"
proof -
  have srt: "sorted_wrt (<) y" using chain_sorted[OF ch nz] .
  have le: "Suc j \<le> length y" using j by simp
  note sp = indexedBinarySearch_spec[OF srt le, where key = "rangeMin a", folded r_def]
  show r1: "Suc j \<le> r" and r2: "r \<le> length y" using sp(1,2) by simp_all
  have nzn: "y ! n \<noteq> 0" if "n < length y" for n using nz that nth_mem by fastforce
  have small: "unat (y ! n) < lo a" if "Suc j \<le> n" "n < r" for n
    using sp(3)[OF that] by (simp add: lo_def word_less_nat_alt)
  show "hi (y ! n) < lo a" if "j \<le> n" "n < r - 1" for n
  proof -
    have n1: "Suc j \<le> Suc n" "Suc n < r" "Suc n < length y" using that r2 by simp_all
    have "hi (y ! n) < lo (y ! Suc n)" using chain_nth[OF ch _ n1(3), of n] by simp
    moreover have "lo (y ! Suc n) \<le> unat (y ! Suc n)" using range_bounds(1)[OF nzn[OF n1(3)]] .
    ultimately show ?thesis using small[OF n1(1,2)] by linarith
  qed
  show "hi (y ! (r - 1)) < lo a" if f: "\<not> unat a \<le> hi (y ! (r - 1))"
  proof (cases "r - 1 = j")
    case True
    then show ?thesis using before_or_contains(2)[OF a nzn[OF j] lt far] by simp
  next
    case False
    then have n1: "Suc j \<le> r - 1" "r - 1 < r" "r - 1 < length y" using r1 r2 by simp_all
    have "lo (y ! (r - 1)) \<le> unat (y ! (r - 1))" using range_bounds(1)[OF nzn[OF n1(3)]] .
    then have "lo (y ! (r - 1)) < lo a" using small[OF n1(1,2)] by linarith
    then show ?thesis using before_or_contains(2)[OF a nzn[OF n1(3)]] f by simp
  qed
qed

lemma isect_ok_end: "\<not> (i < length x \<and> j < length y) \<Longrightarrow> isect_ok x y i j []"
  unfolding isect_ok_def by auto

lemma isect_ok_skip_to:
  assumes chx: "chain x" and chy: "chain y" and nzx: "0 \<notin> set x" and nzy: "0 \<notin> set y"
    and i: "i < length x" and j: "j < length y"
    and lt: "rangeMin (y ! j) < rangeMin (x ! i)" and far: "\<not> x ! i \<le> rangeMax (y ! j)"
  defines "r \<equiv> indexedBinarySearch y (rangeMin (x ! i)) (j + 1)"
  shows "x ! i \<le> rangeMax (y ! (r - 1)) \<Longrightarrow> isect_ok x y i (r - 1) res \<Longrightarrow> isect_ok x y i j res"
    and "\<not> x ! i \<le> rangeMax (y ! (r - 1)) \<Longrightarrow> isect_ok x y i r res \<Longrightarrow> isect_ok x y i j res"
proof -
  have a: "x ! i \<noteq> 0" using i nzx nth_mem by fastforce
  have lt': "lo (y ! j) < lo (x ! i)" using lt by (simp add: lo_def word_less_nat_alt)
  have far': "hi (y ! j) < unat (x ! i)" using far by (simp add: hi_def word_le_nat_alt)
  have r: "r = indexedBinarySearch y (rangeMin (x ! i)) (Suc j)" by (simp add: r_def)
  note sf = skip_facts[OF chy nzy a j lt' far', folded r]
  show "isect_ok x y i j res" if "x ! i \<le> rangeMax (y ! (r - 1))" "isect_ok x y i (r - 1) res"
  proof (rule isect_ok_skip[OF i _ _ chx nzx _ that(2)])
    show "j \<le> r - 1" using sf(1) by simp
    show "r - 1 \<le> length y" using sf(2) by simp
    show "\<forall>n. j \<le> n \<and> n < r - 1 \<longrightarrow> hi (y ! n) < lo (x ! i)" using sf(3) by blast
  qed
  show "isect_ok x y i j res" if "\<not> x ! i \<le> rangeMax (y ! (r - 1))" "isect_ok x y i r res"
  proof (rule isect_ok_skip[OF i _ _ chx nzx _ that(2)])
    show "j \<le> r" using sf(1) by simp
    show "r \<le> length y" using sf(2) .
    have l: "hi (y ! (r - 1)) < lo (x ! i)"
      using sf(4) that(1) by (simp add: hi_def word_le_nat_alt)
    show "\<forall>n. j \<le> n \<and> n < r \<longrightarrow> hi (y ! n) < lo (x ! i)"
    proof (intro allI impI)
      fix n assume n: "j \<le> n \<and> n < r"
      show "hi (y ! n) < lo (x ! i)"
      proof (cases "n < r - 1")
        case True
        then show ?thesis using sf(3) n by blast
      next
        case False
        then have "n = r - 1" using n by arith
        then show ?thesis using l by simp
      qed
    qed
  qed
qed

lemma isect_loop_ok:
  assumes "chain x" "chain y" "0 \<notin> set x" "0 \<notin> set y"
  shows "\<exists>r. isect_loop x y i j out = out @ r \<and> isect_ok x y i j r"
  using assms
proof (induction x y i j out rule: isect_loop.induct)
  case (1 x y i j out)
  note chx = "1.prems"(1) and chy = "1.prems"(2) and nzx = "1.prems"(3) and nzy = "1.prems"(4)
  show ?case
  proof (cases "i < length x \<and> j < length y")
    case False
    then have "isect_loop x y i j out = out" by (subst isect_loop.simps) (simp only: if_False)
    then show ?thesis using isect_ok_end[OF False] by simp
  next
    case True
    then have i: "i < length x" and j: "j < length y" by simp_all
    have a: "x ! i \<noteq> 0" using i nzx nth_mem by fastforce
    have b: "y ! j \<noteq> 0" using j nzy nth_mem by fastforce
    consider (A) "rangeMin (y ! j) < rangeMin (x ! i)"
      | (B) "\<not> rangeMin (y ! j) < rangeMin (x ! i)" "rangeMin (x ! i) < rangeMin (y ! j)"
      | (C) "\<not> rangeMin (y ! j) < rangeMin (x ! i)" "\<not> rangeMin (x ! i) < rangeMin (y ! j)"
      by blast
    then show ?thesis
    proof cases
      case A
      have lt: "lo (y ! j) < lo (x ! i)" using A by (simp add: lo_def word_less_nat_alt)
      show ?thesis
      proof (cases "x ! i \<le> rangeMax (y ! j)")
        case c1: True
        from "1.IH"(1)[OF True A c1 chx chy nzx nzy] obtain r where
          r: "isect_loop x y (i + 1) j (out @ [x ! i]) = (out @ [x ! i]) @ r" "isect_ok x y (i + 1) j r"
          by blast
        have "unat (x ! i) \<le> hi (y ! j)" using c1 by (simp add: hi_def word_le_nat_alt)
        then have cont: "cell_contains (y ! j) (x ! i)" using before_or_contains(1)[OF a b lt] by simp
        have "isect_loop x y i j out = isect_loop x y (i + 1) j (out @ [x ! i])"
          using True A c1 by (subst isect_loop.simps) simp
        then have "isect_loop x y i j out = out @ (x ! i # r)" using r(1) by simp
        moreover have "isect_ok x y i j (x ! i # r)"
          using isect_ok_emit[OF chx nzx i j cont] r(2) by simp
        ultimately show ?thesis by blast
      next
        case c1: False
        define s where "s = indexedBinarySearch y (rangeMin (x ! i)) (j + 1)"
        note sk = isect_ok_skip_to[OF chx chy nzx nzy i j A c1, folded s_def]
        show ?thesis
        proof (cases "x ! i \<le> rangeMax (y ! (s - 1))")
          case c2: True
          from "1.IH"(2)[OF True A c1 c2[unfolded s_def] chx chy nzx nzy] obtain r where
            r: "isect_loop x y i (s - 1) out = out @ r" "isect_ok x y i (s - 1) r"
            unfolding s_def by blast
          have "isect_loop x y i j out = isect_loop x y i (s - 1) out"
            using True A c1 c2 by (subst isect_loop.simps) (simp add: s_def)
          then show ?thesis using r(1) sk(1)[OF c2 r(2)] by auto
        next
          case c2: False
          from "1.IH"(3)[OF True A c1 c2[unfolded s_def] chx chy nzx nzy] obtain r where
            r: "isect_loop x y i s out = out @ r" "isect_ok x y i s r"
            unfolding s_def by blast
          have "isect_loop x y i j out = isect_loop x y i s out"
            using True A c1 c2 by (subst isect_loop.simps) (simp add: s_def)
          then show ?thesis using r(1) sk(2)[OF c2 r(2)] by auto
        qed
      qed
    next
      case B
      have lt: "lo (x ! i) < lo (y ! j)" using B(2) by (simp add: lo_def word_less_nat_alt)
      show ?thesis
      proof (cases "y ! j \<le> rangeMax (x ! i)")
        case c1: True
        from "1.IH"(4)[OF True B c1 chx chy nzx nzy] obtain r where
          r: "isect_loop x y i (j + 1) (out @ [y ! j]) = (out @ [y ! j]) @ r" "isect_ok x y i (j + 1) r"
          by blast
        have "unat (y ! j) \<le> hi (x ! i)" using c1 by (simp add: hi_def word_le_nat_alt)
        then have cont: "cell_contains (x ! i) (y ! j)" using before_or_contains(1)[OF b a lt] by simp
        have "isect_loop x y i j out = isect_loop x y i (j + 1) (out @ [y ! j])"
          using True B c1 by (subst isect_loop.simps) simp
        then have "isect_loop x y i j out = out @ (y ! j # r)" using r(1) by simp
        moreover have "isect_ok y x j i (y ! j # r)"
          using isect_ok_emit[OF chy nzy j i cont] r(2) by (simp add: isect_ok_sym[of x y])
        ultimately show ?thesis using isect_ok_sym[of x y] by blast
      next
        case c1: False
        define s where "s = indexedBinarySearch x (rangeMin (y ! j)) (i + 1)"
        note sk = isect_ok_skip_to[OF chy chx nzy nzx j i B(2) c1, folded s_def]
        show ?thesis
        proof (cases "y ! j \<le> rangeMax (x ! (s - 1))")
          case c2: True
          from "1.IH"(5)[OF True B c1 c2[unfolded s_def] chx chy nzx nzy] obtain r where
            r: "isect_loop x y (s - 1) j out = out @ r" "isect_ok x y (s - 1) j r"
            unfolding s_def by blast
          have "isect_loop x y i j out = isect_loop x y (s - 1) j out"
            using True B c1 c2 by (subst isect_loop.simps) (simp add: s_def)
          moreover have "isect_ok y x j i r" using sk(1)[OF c2] r(2) by (simp add: isect_ok_sym[of x y])
          ultimately show ?thesis using r(1) isect_ok_sym[of x y] by auto
        next
          case c2: False
          from "1.IH"(6)[OF True B c1 c2[unfolded s_def] chx chy nzx nzy] obtain r where
            r: "isect_loop x y s j out = out @ r" "isect_ok x y s j r"
            unfolding s_def by blast
          have "isect_loop x y i j out = isect_loop x y s j out"
            using True B c1 c2 by (subst isect_loop.simps) (simp add: s_def)
          moreover have "isect_ok y x j i r" using sk(2)[OF c2] r(2) by (simp add: isect_ok_sym[of x y])
          ultimately show ?thesis using r(1) isect_ok_sym[of x y] by auto
        qed
      qed
    next
      case C
      have eq: "lo (x ! i) = lo (y ! j)" using C by (simp add: lo_def word_less_nat_alt)
      show ?thesis
      proof (cases "x ! i < y ! j")
        case c1: True
        from "1.IH"(7)[OF True C c1 chx chy nzx nzy] obtain r where
          r: "isect_loop x y (i + 1) j (out @ [x ! i]) = (out @ [x ! i]) @ r" "isect_ok x y (i + 1) j r"
          by blast
        have cont: "cell_contains (y ! j) (x ! i)" using same_lo(1)[OF a b eq c1] .
        have "isect_loop x y i j out = isect_loop x y (i + 1) j (out @ [x ! i])"
          using True C c1 by (subst isect_loop.simps) simp
        then have "isect_loop x y i j out = out @ (x ! i # r)" using r(1) by simp
        moreover have "isect_ok x y i j (x ! i # r)"
          using isect_ok_emit[OF chx nzx i j cont] r(2) by simp
        ultimately show ?thesis by blast
      next
        case c1: False
        from "1.IH"(8)[OF True C c1 chx chy nzx nzy] obtain r where
          r: "isect_loop x y i (j + 1) (out @ [y ! j]) = (out @ [y ! j]) @ r" "isect_ok x y i (j + 1) r"
          by blast
        have cont: "cell_contains (x ! i) (y ! j)" using same_lo(2)[OF a b eq c1] .
        have "isect_loop x y i j out = isect_loop x y i (j + 1) (out @ [y ! j])"
          using True C c1 by (subst isect_loop.simps) simp
        then have "isect_loop x y i j out = out @ (y ! j # r)" using r(1) by simp
        moreover have "isect_ok y x j i (y ! j # r)"
          using isect_ok_emit[OF chy nzy j i cont] r(2) by (simp add: isect_ok_sym[of x y])
        ultimately show ?thesis using isect_ok_sym[of x y] by blast
      qed
    qed
  qed
qed

lemma getIntersectionUU_ok:
  assumes "chain x" "chain y" "0 \<notin> set x" "0 \<notin> set y"
  shows "isect_ok x y 0 0 (getIntersectionUU x y)"
  using isect_loop_ok[OF assms, of 0 0 "[]"] by (auto simp: getIntersectionUU_def)

section \<open>Sibling groups\<close>

lemma word_of_unat_pow:
  fixes w :: cellid
  assumes "unat w = 2 ^ k"
  shows "w = 2 ^ k"
proof -
  have "w = of_nat (unat w)" by simp
  also have "\<dots> = of_nat (2 ^ k)" using assms by simp
  also have "\<dots> = 2 ^ k" by simp
  finally show ?thesis .
qed

lemma isFace_top:
  fixes a :: cellid
  assumes "unat a = (2 * q + 1) * 2 ^ k" "60 \<le> k"
  shows "isFace a"
proof -
  have "(2::nat) ^ k = 2 ^ (k - 60) * 2 ^ 60" using assms(2)
    by (metis le_add_diff_inverse2 power_add)
  then have "unat a = ((2 * q + 1) * 2 ^ (k - 60)) * 2 ^ 60" using assms(1) by simp
  then have "take_bit 60 (unat a) = 0" by (simp only: take_bit_eq_mod mod_mult_self2_is_0)
  then have "unat (take_bit 60 a) = 0" by (simp add: unsigned_take_bit_eq)
  then have "take_bit 60 a = 0" by (simp add: unat_eq_0)
  moreover have "lowestOnBitForLevel 0 - 1 = (mask 60 :: cellid)"
    by (simp add: lowestOnBitForLevel_exp MAX_LEVEL_def mask_eq_exp_minus_1)
  ultimately show ?thesis unfolding isFace_def by (simp add: take_bit_eq_mask)
qed

lemma unat_of_nat_small:
  "n < 2 ^ 64 \<Longrightarrow> unat (of_nat n :: cellid) = n"
  by (simp add: unat_of_nat)

lemma sibling_shape:
  assumes sg: "sibling_group a b c d" and va: "isValid a"
  obtains k m where "even k" "k + 2 < 64"
    "unat (parent a) = (2 * m + 1) * 2 ^ (k + 2)"
    "unat a = (2 * (4 * m) + 1) * 2 ^ k"
    "unat b = (2 * (4 * m + 1) + 1) * 2 ^ k"
    "unat c = (2 * (4 * m + 2) + 1) * 2 ^ k"
    "unat d = (2 * (4 * m + 3) + 1) * 2 ^ k"
proof -
  define k where "k = 2 * (MAX_LEVEL - level a)"
  from valid_shape[OF va] obtain q where a: "unat a = (2 * q + 1) * 2 ^ k" unfolding k_def by blast
  have ev: "even k" by (simp add: k_def)
  have nf: "\<not> isFace a" and ch: "children (parent a) = [a, b, c, d]"
    using sg by (simp_all add: sibling_group_def)
  have "k < 60" using isFace_top[OF a] nf by (meson not_le_imp_less)
  then have k58: "k \<le> 58" using ev by presburger
  then have k2: "k + 2 < 64" by simp
  have La: "lowestOnBit a = 2 ^ k" using cell_shape_of[OF a] by (intro word_of_unat_pow) simp
  have "push_bit 2 (lowestOnBit a) = 2 ^ (k + 2)" unfolding La by (simp add: push_bit_eq_mult)
  then have P: "parent a = (a AND - (2 ^ (k + 2))) OR 2 ^ (k + 2)" by (simp add: parent_def Let_def)
  define m where "m = unat a div 2 ^ Suc (k + 2)"
  have uP: "unat (parent a) = (2 * m + 1) * 2 ^ (k + 2)"
    unfolding P m_def using k2 by (rule unat_ancestor)
  note sP = cell_shape_of[OF uP]
  have LP: "lowestOnBit (parent a) = 2 ^ (k + 2)" using sP by (intro word_of_unat_pow) simp
  have u2: "unat (2 ^ (k + 2) :: cellid) = 2 ^ (k + 2)"
    using unat_push_bit_one[OF k2] by (simp only: push_bit_of_1)
  have "unat (drop_bit 2 (2 ^ (k + 2) :: cellid)) = drop_bit 2 (unat (2 ^ (k + 2) :: cellid))"
    by (rule unat_drop_bit_eq)
  also have "\<dots> = 2 ^ (k + 2) div 2 ^ 2" unfolding u2 by (rule drop_bit_eq_div)
  also have "\<dots> = 2 ^ k" by simp
  finally have "unat (drop_bit 2 (lowestOnBit (parent a))) = 2 ^ k" unfolding LP .
  then have nl: "drop_bit 2 (lowestOnBit (parent a)) = 2 ^ k" by (rule word_of_unat_pow)
  have room: "(8 * m + 8) * 2 ^ k \<le> 2 ^ 64"
  proof -
    have "hi (parent a) < 2 ^ 64" unfolding hi_def using unsigned_less[of "rangeMax (parent a)", where 'a=nat] by simp
    then have "(2 * m + 2) * 2 ^ (k + 2) \<le> 2 ^ 64" using sP by linarith
    moreover have "(2 * m + 2) * 2 ^ (k + 2) = (8 * m + 8) * 2 ^ k" by (simp add: algebra_simps)
    ultimately show ?thesis by simp
  qed
  have Pw: "parent a = of_nat ((8 * m + 4) * 2 ^ k)"
  proof -
    have "parent a = of_nat (unat (parent a))" by simp
    also have "unat (parent a) = (8 * m + 4) * 2 ^ k" unfolding uP by (simp add: algebra_simps)
    finally show ?thesis .
  qed
  have c0: "child (parent a) 0 = parent a - 3 * 2 ^ k" by (simp add: child_def Let_def nl)
  have c1: "child (parent a) 1 = parent a - 2 ^ k" by (simp add: child_def Let_def nl)
  have c2: "child (parent a) 2 = parent a + 2 ^ k" by (simp add: child_def Let_def nl)
  have c3: "child (parent a) 3 = parent a + 3 * 2 ^ k" by (simp add: child_def Let_def nl)
  have "parent a = of_nat ((8 * m + 1) * 2 ^ k + 3 * 2 ^ k)" unfolding Pw by (simp add: algebra_simps)
  then have ch0: "child (parent a) 0 = of_nat ((8 * m + 1) * 2 ^ k)" unfolding c0 by simp
  have "parent a = of_nat ((8 * m + 3) * 2 ^ k + 2 ^ k)" unfolding Pw by (simp add: algebra_simps)
  then have ch1: "child (parent a) 1 = of_nat ((8 * m + 3) * 2 ^ k)" unfolding c1 by simp
  have "of_nat ((8 * m + 5) * 2 ^ k) = parent a + 2 ^ k" unfolding Pw by (simp add: algebra_simps)
  then have ch2: "child (parent a) 2 = of_nat ((8 * m + 5) * 2 ^ k)" unfolding c2 by simp
  have "of_nat ((8 * m + 7) * 2 ^ k) = parent a + 3 * 2 ^ k" unfolding Pw by (simp add: algebra_simps)
  then have ch3: "child (parent a) 3 = of_nat ((8 * m + 7) * 2 ^ k)" unfolding c3 by simp
  have small: "(8 * m + j) * 2 ^ k < 2 ^ 64" if "j < 8" for j :: nat
  proof -
    have "(8 * m + j) * 2 ^ k < (8 * m + 8) * 2 ^ k" using that by simp
    then show ?thesis using room by linarith
  qed
  have abcd: "child (parent a) 0 = a" "child (parent a) 1 = b" "child (parent a) 2 = c"
    "child (parent a) 3 = d" using ch by (simp_all add: children_def)
  have wa: "a = of_nat ((8 * m + 1) * 2 ^ k)" using abcd(1) ch0 by simp
  have wb: "b = of_nat ((8 * m + 3) * 2 ^ k)" using abcd(2) ch1 by simp
  have wc: "c = of_nat ((8 * m + 5) * 2 ^ k)" using abcd(3) ch2 by simp
  have wd: "d = of_nat ((8 * m + 7) * 2 ^ k)" using abcd(4) ch3 by simp
  have ua: "unat a = (8 * m + 1) * 2 ^ k" unfolding wa by (rule unat_of_nat_small, rule small) simp
  have ub: "unat b = (8 * m + 3) * 2 ^ k" unfolding wb by (rule unat_of_nat_small, rule small) simp
  have uc: "unat c = (8 * m + 5) * 2 ^ k" unfolding wc by (rule unat_of_nat_small, rule small) simp
  have ud: "unat d = (8 * m + 7) * 2 ^ k" unfolding wd by (rule unat_of_nat_small, rule small) simp
  show ?thesis
    by (rule that[of k m]) (use ev k2 uP ua ub uc ud in \<open>simp_all add: algebra_simps\<close>)
qed

text \<open>The four children of a cell tile its range; the positions between two neighbouring
  children belong to no cell identifier but, in the middle, the parent itself.\<close>

lemma sibling_ranges:
  assumes sg: "sibling_group a b c d" and va: "isValid a"
  obtains M T k m where "0 < T" "T = 2 ^ k" "even k" "M = m * T"
    "unat (parent a) = 8 * M + 4 * T" "lo (parent a) = 8 * M + 1" "hi (parent a) + 1 = 8 * M + 8 * T"
    "unat a = 8 * M + T" "lo a = 8 * M + 1" "hi a + 1 = 8 * M + 2 * T"
    "unat b = 8 * M + 3 * T" "lo b = 8 * M + 2 * T + 1" "hi b + 1 = 8 * M + 4 * T"
    "unat c = 8 * M + 5 * T" "lo c = 8 * M + 4 * T + 1" "hi c + 1 = 8 * M + 6 * T"
    "unat d = 8 * M + 7 * T" "lo d = 8 * M + 6 * T + 1" "hi d + 1 = 8 * M + 8 * T"
proof -
  from sibling_shape[OF sg va] obtain k m where s: "even k" "k + 2 < 64"
    "unat (parent a) = (2 * m + 1) * 2 ^ (k + 2)"
    "unat a = (2 * (4 * m) + 1) * 2 ^ k"
    "unat b = (2 * (4 * m + 1) + 1) * 2 ^ k"
    "unat c = (2 * (4 * m + 2) + 1) * 2 ^ k"
    "unat d = (2 * (4 * m + 3) + 1) * 2 ^ k" by blast
  define T :: nat where "T = 2 ^ k"
  define M where "M = m * T"
  note sp = cell_shape_of[OF s(3)] and sa = cell_shape_of[OF s(4)] and sb = cell_shape_of[OF s(5)]
    and sc = cell_shape_of[OF s(6)] and sd = cell_shape_of[OF s(7)]
  have p4: "(2::nat) ^ (k + 2) = 4 * T" by (simp add: T_def)
  show ?thesis
  proof (rule that[of T k M m])
    show "0 < T" "T = 2 ^ k" "even k" "M = m * T" using s(1) by (simp_all add: T_def M_def)
    show "unat (parent a) = 8 * M + 4 * T" unfolding s(3) p4 by (simp add: M_def algebra_simps)
    show "lo (parent a) = 8 * M + 1" using sp unfolding p4 by (simp add: M_def algebra_simps)
    show "hi (parent a) + 1 = 8 * M + 8 * T" using sp unfolding p4 by (simp add: M_def algebra_simps)
    show "unat a = 8 * M + T" unfolding s(4) by (simp add: M_def T_def algebra_simps)
    show "lo a = 8 * M + 1" using sa by (simp add: M_def T_def algebra_simps)
    show "hi a + 1 = 8 * M + 2 * T" using sa by (simp add: M_def T_def algebra_simps)
    show "unat b = 8 * M + 3 * T" unfolding s(5) by (simp add: M_def T_def algebra_simps)
    show "lo b = 8 * M + 2 * T + 1" using sb by (simp add: M_def T_def algebra_simps)
    show "hi b + 1 = 8 * M + 4 * T" using sb by (simp add: M_def T_def algebra_simps)
    show "unat c = 8 * M + 5 * T" unfolding s(6) by (simp add: M_def T_def algebra_simps)
    show "lo c = 8 * M + 4 * T + 1" using sc by (simp add: M_def T_def algebra_simps)
    show "hi c + 1 = 8 * M + 6 * T" using sc by (simp add: M_def T_def algebra_simps)
    show "unat d = 8 * M + 7 * T" unfolding s(7) by (simp add: M_def T_def algebra_simps)
    show "lo d = 8 * M + 6 * T + 1" using sd by (simp add: M_def T_def algebra_simps)
    show "hi d + 1 = 8 * M + 8 * T" using sd by (simp add: M_def T_def algebra_simps)
  qed
qed

lemma nonzero_unat: "0 < unat (x :: cellid) \<Longrightarrow> x \<noteq> 0"
  by auto

lemma sibling_in_parent:
  assumes sg: "sibling_group a b c d" and va: "isValid a" and s: "s \<in> {a, b, c, d}"
  shows "s \<noteq> 0" "cell_contains (parent a) s" "s \<noteq> parent a" "parent a \<noteq> 0"
proof -
  from sibling_ranges[OF sg va] obtain M T :: nat where r: "0 < T"
    "unat (parent a) = 8 * M + 4 * T" "lo (parent a) = 8 * M + 1" "hi (parent a) + 1 = 8 * M + 8 * T"
    "unat a = 8 * M + T" "lo a = 8 * M + 1" "hi a + 1 = 8 * M + 2 * T"
    "unat b = 8 * M + 3 * T" "lo b = 8 * M + 2 * T + 1" "hi b + 1 = 8 * M + 4 * T"
    "unat c = 8 * M + 5 * T" "lo c = 8 * M + 4 * T + 1" "hi c + 1 = 8 * M + 6 * T"
    "unat d = 8 * M + 7 * T" "lo d = 8 * M + 6 * T + 1" "hi d + 1 = 8 * M + 8 * T"
    by metis
  have "0 < unat s" using s r by auto
  then show "s \<noteq> 0" by (rule nonzero_unat)
  have "lo (parent a) \<le> lo s \<and> hi s \<le> hi (parent a)"
    using s r by (elim insertE emptyE; simp; linarith)
  then show "cell_contains (parent a) s" by (simp add: cell_contains_iff)
  have "unat s \<noteq> unat (parent a)" using s r by (elim insertE emptyE; simp)
  then show "s \<noteq> parent a" by auto
  have "0 < unat (parent a)" using r by simp
  then show "parent a \<noteq> 0" by (rule nonzero_unat)
qed

lemma sibling_order:
  assumes sg: "sibling_group a b c d" and va: "isValid a"
  shows "a < b" "b < c" "c < d"
proof -
  from sibling_ranges[OF sg va] obtain M T :: nat where r: "0 < T"
    "unat a = 8 * M + T" "unat b = 8 * M + 3 * T" "unat c = 8 * M + 5 * T" "unat d = 8 * M + 7 * T"
    by metis
  show "a < b" "b < c" "c < d" using r by (simp_all add: word_less_nat_alt)
qed

lemma valid_even_shape:
  assumes "isValid z" "unat z = (2 * t + 1) * 2 ^ n"
  shows "even n"
proof -
  from valid_shape[OF assms(1)] obtain q where "unat z = (2 * q + 1) * 2 ^ (2 * (MAX_LEVEL - level z))"
    by blast
  then have "n = 2 * (MAX_LEVEL - level z)" using odd_pow_unique[of t n q] assms(2) by simp
  then show ?thesis by simp
qed

lemma sibling_gap:
  assumes sg: "sibling_group a b c d" and va: "isValid a" and vz: "isValid z"
    and az: "a < z" and zd: "z < d"
  shows "\<exists>s \<in> {a, b, c, d}. cell_contains s z \<or> cell_contains z s"
proof -
  from sibling_ranges[OF sg va] obtain M T k m :: nat where r: "0 < T" "T = 2 ^ k" "even k" "M = m * T"
    "unat (parent a) = 8 * M + 4 * T" "lo (parent a) = 8 * M + 1" "hi (parent a) + 1 = 8 * M + 8 * T"
    "unat a = 8 * M + T" "lo a = 8 * M + 1" "hi a + 1 = 8 * M + 2 * T"
    "unat b = 8 * M + 3 * T" "lo b = 8 * M + 2 * T + 1" "hi b + 1 = 8 * M + 4 * T"
    "unat c = 8 * M + 5 * T" "lo c = 8 * M + 4 * T + 1" "hi c + 1 = 8 * M + 6 * T"
    "unat d = 8 * M + 7 * T" "lo d = 8 * M + 6 * T + 1" "hi d + 1 = 8 * M + 8 * T"
    by metis
  have z: "z \<noteq> 0" using vz by (rule isValid_nonzero)
  note nz = sibling_in_parent(1)[OF sg va]
  have u: "unat a < unat z" "unat z < unat d" using az zd by (simp_all add: word_less_nat_alt)
  have odd1: "unat z \<noteq> 8 * M + 2 * T"
  proof
    assume "unat z = 8 * M + 2 * T"
    then have "unat z = (2 * (2 * m) + 1) * 2 ^ (k + 1)" by (simp add: r(2,4) algebra_simps)
    from valid_even_shape[OF vz this] show False using r(3) by simp
  qed
  have odd2: "unat z \<noteq> 8 * M + 6 * T"
  proof
    assume "unat z = 8 * M + 6 * T"
    then have "unat z = (2 * (2 * m + 1) + 1) * 2 ^ (k + 1)" by (simp add: r(2,4) algebra_simps)
    from valid_even_shape[OF vz this] show False using r(3) by simp
  qed
  consider (ina) "unat z \<le> hi a" | (inb) "lo b \<le> unat z" "unat z \<le> hi b"
    | (mid) "unat z = 8 * M + 4 * T" | (inc) "lo c \<le> unat z" "unat z \<le> hi c"
    | (ind) "lo d \<le> unat z"
    using odd1 odd2 r by linarith
  then show ?thesis
  proof cases
    case ina
    have "lo a \<le> unat z" using u r by linarith
    then have "cell_contains a z" using point_in_range[OF z nz[of a]] ina by simp
    then show ?thesis by blast
  next
    case inb
    then have "cell_contains b z" using point_in_range[OF z nz[of b]] by simp
    then show ?thesis by blast
  next
    case mid
    then have "z = parent a" using r(5) by (simp add: word_unat_eq_iff)
    then have "cell_contains z a" using sibling_in_parent(2)[OF sg va, of a] by simp
    then show ?thesis by blast
  next
    case inc
    then have "cell_contains c z" using point_in_range[OF z nz[of c]] by simp
    then show ?thesis by blast
  next
    case ind
    have "unat z \<le> hi d" using u r by linarith
    then have "cell_contains d z" using point_in_range[OF z nz[of d]] ind by simp
    then show ?thesis by blast
  qed
qed

lemma container_of_sibling:
  assumes sg: "sibling_group a b c d" and va: "isValid a" and s: "s \<in> {a, b, c, d}"
    and vx: "isValid X" and cont: "cell_contains X s" and ne: "X \<noteq> s"
  shows "cell_contains X (parent a)"
proof -
  from sibling_ranges[OF sg va] obtain M T k m :: nat where r: "0 < T" "T = 2 ^ k" "even k" "M = m * T"
    "unat (parent a) = 8 * M + 4 * T" "lo (parent a) = 8 * M + 1" "hi (parent a) + 1 = 8 * M + 8 * T"
    "unat a = 8 * M + T" "lo a = 8 * M + 1" "hi a + 1 = 8 * M + 2 * T"
    "unat b = 8 * M + 3 * T" "lo b = 8 * M + 2 * T + 1" "hi b + 1 = 8 * M + 4 * T"
    "unat c = 8 * M + 5 * T" "lo c = 8 * M + 4 * T + 1" "hi c + 1 = 8 * M + 6 * T"
    "unat d = 8 * M + 7 * T" "lo d = 8 * M + 6 * T + 1" "hi d + 1 = 8 * M + 8 * T"
    by metis
  have X: "X \<noteq> 0" using vx by (rule isValid_nonzero)
  note sp = sibling_in_parent[OF sg va s]
  define n where "n = 2 * (MAX_LEVEL - level X)"
  from valid_shape[OF vx] obtain q where x: "lo X = 2 * q * 2 ^ n + 1" "hi X + 1 = (2 * q + 2) * 2 ^ n"
    unfolding n_def by blast
  have wX: "hi X + 1 = lo X - 1 + 2 * 2 ^ n" using x by (simp add: algebra_simps)
  have ws: "hi s + 1 = lo s - 1 + 2 * T" "0 < lo s" using s r by (elim insertE emptyE; simp)+
  have c: "lo X \<le> lo s" "hi s \<le> hi X" using cont by (simp_all add: cell_contains_iff)
  have ge: "T \<le> 2 ^ n" using wX ws c x(1) by linarith
  have "T \<noteq> 2 ^ n"
  proof
    assume "T = 2 ^ n"
    then have "lo X = lo s" "hi X = hi s" using wX ws c x(1) by linarith+
    then show False using range_inj[OF X sp(1)] ne by simp
  qed
  then have "(2::nat) ^ k < 2 ^ n" using ge r(2) by simp
  then have "k < n" by simp
  moreover have "even n" by (simp add: n_def)
  ultimately have "k + 2 \<le> n" using r(3) by presburger
  then have "(2::nat) ^ (k + 2) \<le> 2 ^ n" by (rule power_increasing) simp
  then have big: "4 * T \<le> 2 ^ n" by (simp add: r(2))
  have both: "lo X \<le> lo s" "hi s \<le> hi X" "lo (parent a) \<le> lo s" "hi s \<le> hi (parent a)" "lo s \<le> hi s"
    using c sp(2) range_nonempty[OF sp(1)] by (simp_all add: cell_contains_iff)
  from laminar[OF X sp(4)] both
  consider "lo X \<le> lo (parent a) \<and> hi (parent a) \<le> hi X"
    | "lo (parent a) \<le> lo X \<and> hi X \<le> hi (parent a)" by linarith
  then show ?thesis
  proof cases
    case 1
    then show ?thesis by (simp add: cell_contains_iff)
  next
    case 2
    then have "lo X = lo (parent a) \<and> hi X = hi (parent a)" using wX r(6,7) big x(1) by linarith
    then show ?thesis by (simp add: cell_contains_iff)
  qed
qed

lemma has_sibling_group_iff:
  "has_sibling_group zs \<longleftrightarrow>
     (\<exists>n. n + 3 < length zs \<and> sibling_group (zs ! n) (zs ! (n + 1)) (zs ! (n + 2)) (zs ! (n + 3)))"
proof (induction zs rule: has_sibling_group.induct)
  case (1 a b c d rest)
  show ?case
  proof
    assume "has_sibling_group (a # b # c # d # rest)"
    then consider "sibling_group a b c d" | "has_sibling_group (b # c # d # rest)" by auto
    then show "\<exists>n. n + 3 < length (a # b # c # d # rest)
        \<and> sibling_group ((a # b # c # d # rest) ! n) ((a # b # c # d # rest) ! (n + 1))
            ((a # b # c # d # rest) ! (n + 2)) ((a # b # c # d # rest) ! (n + 3))"
    proof cases
      case 1
      then show ?thesis by (intro exI[of _ 0]) simp
    next
      case 2
      then obtain n where "n + 3 < length (b # c # d # rest)"
        "sibling_group ((b # c # d # rest) ! n) ((b # c # d # rest) ! (n + 1))
            ((b # c # d # rest) ! (n + 2)) ((b # c # d # rest) ! (n + 3))" using "1.IH" by blast
      then show ?thesis by (intro exI[of _ "Suc n"]) simp
    qed
  next
    assume "\<exists>n. n + 3 < length (a # b # c # d # rest)
        \<and> sibling_group ((a # b # c # d # rest) ! n) ((a # b # c # d # rest) ! (n + 1))
            ((a # b # c # d # rest) ! (n + 2)) ((a # b # c # d # rest) ! (n + 3))"
    then obtain n where n: "n + 3 < length (a # b # c # d # rest)"
        "sibling_group ((a # b # c # d # rest) ! n) ((a # b # c # d # rest) ! (n + 1))
            ((a # b # c # d # rest) ! (n + 2)) ((a # b # c # d # rest) ! (n + 3))" by blast
    show "has_sibling_group (a # b # c # d # rest)"
    proof (cases n)
      case 0
      then show ?thesis using n by simp
    next
      case (Suc n')
      then have "n' + 3 < length (b # c # d # rest)
        \<and> sibling_group ((b # c # d # rest) ! n') ((b # c # d # rest) ! (n' + 1))
            ((b # c # d # rest) ! (n' + 2)) ((b # c # d # rest) ! (n' + 3))" using n by simp
      then have "has_sibling_group (b # c # d # rest)" using "1.IH" by blast
      then show ?thesis by simp
    qed
  qed
qed simp_all

lemma sorted_next:
  assumes srt: "sorted_wrt (<) (zs :: cellid list)" and n: "n < length zs" and s': "s' \<in> set zs"
    and lt: "zs ! n < s'" and none: "\<And>z. z \<in> set zs \<Longrightarrow> zs ! n < z \<Longrightarrow> z < s' \<Longrightarrow> False"
  shows "n + 1 < length zs \<and> zs ! (n + 1) = s'"
proof -
  from s' obtain n' where n': "n' < length zs" "zs ! n' = s'" by (auto simp: in_set_conv_nth)
  have "n < n'"
  proof (rule ccontr)
    assume "\<not> n < n'"
    then have "n' = n \<or> n' < n" by auto
    then have "zs ! n' \<le> zs ! n" using srt n
      by (auto simp: sorted_wrt_iff_nth_less intro: order.strict_implies_order)
    then show False using lt n'(2) by simp
  qed
  then have l: "n + 1 < length zs" using n'(1) by simp
  have a: "zs ! n < zs ! (n + 1)" using srt l by (simp add: sorted_wrt_iff_nth_less)
  have "zs ! (n + 1) = s'"
  proof (rule ccontr)
    assume ne: "zs ! (n + 1) \<noteq> s'"
    then have "n + 1 < n'" using \<open>n < n'\<close> n'(2) by (cases "n + 1 = n'") auto
    then have "zs ! (n + 1) < s'" using srt n' by (auto simp: sorted_wrt_iff_nth_less)
    then show False using none[OF nth_mem[OF l] a] by simp
  qed
  then show ?thesis using l by simp
qed

text \<open>In a sequence of disjoint ranges of cell identifiers, four children of one cell stand
  next to one another.\<close>

lemma siblings_consecutive:
  assumes ch: "chain zs" and v: "\<forall>z \<in> set zs. isValid z"
    and mem: "a \<in> set zs" "b \<in> set zs" "c \<in> set zs" "d \<in> set zs"
    and sg: "sibling_group a b c d"
  shows "has_sibling_group zs"
proof -
  have nz: "0 \<notin> set zs" using v by (rule all_valid_nonzero)
  have srt: "sorted_wrt (<) zs" using chain_sorted[OF ch nz] .
  have va: "isValid a" using v mem by blast
  note ord = sibling_order[OF sg va]
  have only: "z \<in> {a, b, c, d}" if "z \<in> set zs" "a < z" "z < d" for z
  proof (rule ccontr)
    assume out: "z \<notin> {a, b, c, d}"
    have vz: "isValid z" using v that(1) by blast
    from sibling_gap[OF sg va vz that(2,3)] obtain s where
      s: "s \<in> {a, b, c, d}" "cell_contains s z \<or> cell_contains z s" by blast
    have "s \<in> set zs" "s \<noteq> z" using s(1) mem out by auto
    then show False using chain_no_containment[OF ch nz _ _ ] that(1) s(2) by metis
  qed
  from mem(1) obtain n where n: "n < length zs" "zs ! n = a" by (auto simp: in_set_conv_nth)
  have 1: "n + 1 < length zs \<and> zs ! (n + 1) = b"
  proof (rule sorted_next[OF srt n(1) mem(2)])
    show "zs ! n < b" using n(2) ord by simp
    show False if "z \<in> set zs" "zs ! n < z" "z < b" for z
    proof -
      have "a < z" "z < d" using that(2,3) n(2) ord by auto
      then have "z \<in> {a, b, c, d}" using only[OF that(1)] by simp
      then show False using that(2,3) n(2) ord by auto
    qed
  qed
  have 2: "n + 1 + 1 < length zs \<and> zs ! (n + 1 + 1) = c"
  proof (rule sorted_next[OF srt _ mem(3)])
    show "n + 1 < length zs" using 1 by simp
    show "zs ! (n + 1) < c" using 1 ord by simp
    show False if "z \<in> set zs" "zs ! (n + 1) < z" "z < c" for z
    proof -
      have "a < z" "z < d" using that(2,3) 1 ord by auto
      then have "z \<in> {a, b, c, d}" using only[OF that(1)] by simp
      then show False using that(2,3) 1 ord by auto
    qed
  qed
  have 3: "n + 2 + 1 < length zs \<and> zs ! (n + 2 + 1) = d"
  proof (rule sorted_next[OF srt _ mem(4)])
    show "n + 2 < length zs" using 2 by simp
    show "zs ! (n + 2) < d" using 2 ord by simp
    show False if "z \<in> set zs" "zs ! (n + 2) < z" "z < d" for z
    proof -
      have "a < z" "z < d" using that(2,3) 2 ord by auto
      then have "z \<in> {a, b, c, d}" using only[OF that(1)] by simp
      then show False using that(2,3) 2 ord by auto
    qed
  qed
  have "n + 3 < length zs \<and> sibling_group (zs ! n) (zs ! (n + 1)) (zs ! (n + 2)) (zs ! (n + 3))"
    using n 1 2 3 sg by (simp add: numeral_3_eq_3 numeral_2_eq_2)
  then show ?thesis unfolding has_sibling_group_iff by blast
qed

section \<open>Sibling collapse\<close>

text \<open>
  C1 (sibling collapse). The four children of a non-leaf cell should normalize to the parent
  alone. The test written in \<open>normalize\<close> combines the last three entries with AND, where
  its comment asks for XOR: the AND of the first three children is the first child, never
  the fourth, so the loop is left before the exact test. At the four children of the
  level-0 cell of face 0, given in reverse curve order, \<open>normalize\<close> only sorts them and
  reports no reduction.
\<close>

theorem normalize_face0_children:
  "children 0x1000000000000000
     = [0x0400000000000000, 0x0C00000000000000, 0x1400000000000000, 0x1C00000000000000]
   \<and> normalize (rev (children 0x1000000000000000))
     = (False, [0x0400000000000000, 0x0C00000000000000, 0x1400000000000000, 0x1C00000000000000])
   \<and> normalize (rev (children 0x1000000000000000)) \<noteq> (True, [0x1000000000000000])"
  by code_simp

section \<open>Intersection of two unions\<close>

lemma intersection_no_sibling_group:
  assumes nA: "is_normalized A" and nB: "is_normalized B"
    and vA: "\<forall>c \<in> set A. isValid c" and vB: "\<forall>c \<in> set B. isValid c"
    and ok: "isect_ok A B 0 0 out"
  shows "\<not> has_sibling_group out"
proof
  assume "has_sibling_group out"
  then obtain n where n: "n + 3 < length out"
    "sibling_group (out ! n) (out ! (n + 1)) (out ! (n + 2)) (out ! (n + 3))"
    unfolding has_sibling_group_iff by blast
  define a b c d where "a = out ! n" and "b = out ! (n + 1)" and "c = out ! (n + 2)" and "d = out ! (n + 3)"
  have sg: "sibling_group a b c d" using n(2) by (simp add: a_def b_def c_def d_def)
  have mem: "s \<in> set out" if "s \<in> {a, b, c, d}" for s
    using that n(1) by (auto simp: a_def b_def c_def d_def)
  have chA: "chain A" and chB: "chain B" using nA vA nB vB by (simp_all add: is_normalized_chain)
  have nzA: "0 \<notin> set A" and nzB: "0 \<notin> set B" using vA vB by (simp_all add: all_valid_nonzero)
  have prov: "(s \<in> set A \<and> (\<exists>b' \<in> set B. cell_contains b' s))
              \<or> (s \<in> set B \<and> (\<exists>a' \<in> set A. cell_contains a' s))" if "s \<in> {a, b, c, d}" for s
    using ok mem[OF that] unfolding isect_ok_def by simp
  have va: "isValid a" using prov[of a] vA vB by auto
  have side: "(\<forall>s \<in> {a, b, c, d}. s \<in> set Y)"
    if e: "e \<in> {a, b, c, d}" "e \<notin> set X" and chX: "chain X" and nzX: "0 \<notin> set X"
      and vX: "\<forall>c \<in> set X. isValid c"
      and pr: "\<And>s. s \<in> {a, b, c, d} \<Longrightarrow> (s \<in> set X \<and> (\<exists>b' \<in> set Y. cell_contains b' s))
              \<or> (s \<in> set Y \<and> (\<exists>a' \<in> set X. cell_contains a' s))"
    for e X Y
  proof
    fix s assume s: "s \<in> {a, b, c, d}"
    from pr[OF e(1)] e(2) obtain a' where a': "a' \<in> set X" "cell_contains a' e" by blast
    have "a' \<noteq> e" using a'(1) e(2) by auto
    then have top: "cell_contains a' (parent a)"
      using container_of_sibling[OF sg va e(1) _ a'(2)] vX a'(1) by blast
    show "s \<in> set Y"
    proof (rule ccontr)
      assume "s \<notin> set Y"
      then have sX: "s \<in> set X" using pr[OF s] by blast
      note sp = sibling_in_parent[OF sg va s]
      have c: "cell_contains a' s" using cell_contains_trans[OF top sp(2)] .
      have "a' \<noteq> s"
      proof
        assume "a' = s"
        then have "cell_contains s (parent a)" using top by simp
        then show False using cell_contains_antisym[OF sp(1,4) _ sp(2)] sp(3) by simp
      qed
      then show False using chain_no_containment[OF chX nzX a'(1) sX] c by simp
    qed
  qed
  have "(\<forall>s \<in> {a, b, c, d}. s \<in> set A) \<or> (\<forall>s \<in> {a, b, c, d}. s \<in> set B)"
  proof (cases "\<forall>s \<in> {a, b, c, d}. s \<in> set A")
    case True
    then show ?thesis by simp
  next
    case False
    then obtain e where e: "e \<in> {a, b, c, d}" "e \<notin> set A" by blast
    have "\<forall>s \<in> {a, b, c, d}. s \<in> set B"
      using side[OF e chA nzA vA] prov by blast
    then show ?thesis by simp
  qed
  then consider "a \<in> set A" "b \<in> set A" "c \<in> set A" "d \<in> set A"
    | "a \<in> set B" "b \<in> set B" "c \<in> set B" "d \<in> set B" by auto
  then show False
  proof cases
    case 1
    from siblings_consecutive[OF chA vA 1 sg] show False using nA by (simp add: is_normalized_def)
  next
    case 2
    from siblings_consecutive[OF chB vB 2 sg] show False using nB by (simp add: is_normalized_def)
  qed
qed

text \<open>
  C2 (intersection). For normalized unions \<open>A\<close> and \<open>B\<close> of cell identifiers, the union
  that \<open>getIntersectionUU\<close> produces contains a cell identifier, a leaf in particular,
  exactly when both \<open>A\<close> and \<open>B\<close> contain it. Its sequence is normalized as it comes out
  of the sweep: strictly ascending, no identifier contained by another, no four siblings
  in a row; \<open>normalize\<close> would leave it as it is and return false.
\<close>

theorem getIntersectionUU_correct:
  assumes "is_normalized A" "is_normalized B"
    and "\<forall>c \<in> set A. isValid c" "\<forall>c \<in> set B. isValid c"
  shows "(\<forall>cid. isValid cid \<longrightarrow>
            (contains (getIntersectionUU A B) cid \<longleftrightarrow> contains A cid \<and> contains B cid))
       \<and> is_normalized (getIntersectionUU A B)
       \<and> normalize (getIntersectionUU A B) = (False, getIntersectionUU A B)"
proof -
  define out where "out = getIntersectionUU A B"
  have chA: "chain A" and chB: "chain B" using assms by (simp_all add: is_normalized_chain)
  have nzA: "0 \<notin> set A" and nzB: "0 \<notin> set B" using assms(3,4) by (simp_all add: all_valid_nonzero)
  have ok: "isect_ok A B 0 0 out" unfolding out_def using chA chB nzA nzB by (rule getIntersectionUU_ok)
  then have cv: "cover out = cover A \<inter> cover B" and ch: "chain out"
    and sub: "set out \<subseteq> set A \<union> set B" unfolding isect_ok_def by auto
  have nz: "0 \<notin> set out" using sub nzA nzB by auto
  have c: "contains out cid \<longleftrightarrow> contains A cid \<and> contains B cid" if "isValid cid" for cid
  proof -
    have k: "cid \<noteq> 0" using that by (rule isValid_nonzero)
    show ?thesis
      using contains_cover[OF ch nz k] contains_cover[OF chA nzA k] contains_cover[OF chB nzB k] cv
      by simp
  qed
  have "sorted_wrt (<) out" using chain_sorted[OF ch nz] .
  moreover have "\<forall>a \<in> set out. \<forall>b \<in> set out. a \<noteq> b \<longrightarrow> \<not> cell_contains a b"
    using chain_no_containment[OF ch nz] by blast
  moreover have "\<not> has_sibling_group out"
    using assms ok by (rule intersection_no_sibling_group)
  ultimately have n: "is_normalized out" by (simp add: is_normalized_def)
  then have "normalize out = (False, out)" by (rule normalize_fixed)
  then show ?thesis using c n unfolding out_def by blast
qed

text \<open>A level-1 cell of face 0 with the face-1 cell, against the face-0 cell with a
  level-1 cell of face 1; the identifier looked up is the first leaf of face 0.\<close>

theorem getIntersectionUU_correct_witness:
  "is_normalized [0x0400000000000000, 0x3000000000000000]
   \<and> is_normalized [0x1000000000000000, 0x3400000000000000]
   \<and> isValid 0x0400000000000000 \<and> isValid 0x3000000000000000
   \<and> isValid 0x1000000000000000 \<and> isValid 0x3400000000000000
   \<and> isValid 0x0000000000000001 \<and> isLeaf 0x0000000000000001
   \<and> getIntersectionUU [0x0400000000000000, 0x3000000000000000] [0x1000000000000000, 0x3400000000000000]
        = [0x0400000000000000, 0x3400000000000000]
   \<and> contains [0x0400000000000000, 0x3000000000000000] 0x0000000000000001
   \<and> contains [0x1000000000000000, 0x3400000000000000] 0x0000000000000001
   \<and> contains [0x0400000000000000, 0x3400000000000000] 0x0000000000000001
   \<and> is_normalized [0x0400000000000000, 0x3400000000000000]"
proof -
  have n: "is_normalized [0x0400000000000000, 0x3000000000000000]"
    "is_normalized [0x1000000000000000, 0x3400000000000000]"
    unfolding is_normalized_def by code_simp+
  have v: "isValid 0x0400000000000000" "isValid 0x3000000000000000"
    "isValid 0x1000000000000000" "isValid 0x3400000000000000"
    "isValid 0x0000000000000001" "isLeaf 0x0000000000000001"
    by code_simp+
  have g: "getIntersectionUU [0x0400000000000000, 0x3000000000000000] [0x1000000000000000, 0x3400000000000000]
        = [0x0400000000000000, 0x3400000000000000]" by code_simp
  have c: "contains [0x0400000000000000, 0x3000000000000000] 0x0000000000000001"
    "contains [0x1000000000000000, 0x3400000000000000] 0x0000000000000001"
    by code_simp+
  from getIntersectionUU_correct [of "[0x0400000000000000, 0x3000000000000000]"
      "[0x1000000000000000, 0x3400000000000000]"] n v
  have r: "(\<forall>cid. isValid cid \<longrightarrow>
            (contains [0x0400000000000000, 0x3400000000000000] cid
              \<longleftrightarrow> contains [0x0400000000000000, 0x3000000000000000] cid
                  \<and> contains [0x1000000000000000, 0x3400000000000000] cid))
       \<and> is_normalized [0x0400000000000000, 0x3400000000000000]"
    unfolding g by simp
  then have "contains [0x0400000000000000, 0x3400000000000000] 0x0000000000000001"
    using v(5) c by blast
  then show ?thesis using n v g c r by simp
qed

text \<open>
  C3 (idempotence). \<open>normalize\<close> returns true exactly when the stored sequence is shorter
  after the call than before; on a union that is already normalized it leaves the sequence
  as it is and returns false.
\<close>

theorem normalize_reports_reduction:
  "(fst (normalize cellIds) \<longleftrightarrow> length (snd (normalize cellIds)) < length cellIds)
   \<and> (is_normalized cellIds \<longrightarrow> normalize cellIds = (False, cellIds))"
proof
  show "fst (normalize cellIds) \<longleftrightarrow> length (snd (normalize cellIds)) < length cellIds"
    by (simp add: normalize_def Let_def)
next
  show "is_normalized cellIds \<longrightarrow> normalize cellIds = (False, cellIds)"
    by (simp add: normalize_fixed)
qed

text \<open>Two disjoint level-1 cells and a face: unchanged, no reduction reported. A
  duplicated cell with its face: reduced, and the sequence is shorter.\<close>

theorem normalize_reports_reduction_witness:
  "is_normalized [0x0400000000000000, 0x0C00000000000000, 0x3000000000000000]
   \<and> normalize [0x0400000000000000, 0x0C00000000000000, 0x3000000000000000]
       = (False, [0x0400000000000000, 0x0C00000000000000, 0x3000000000000000])
   \<and> fst (normalize [0x0400000000000000, 0x0400000000000000, 0x1000000000000000])
   \<and> length (snd (normalize [0x0400000000000000, 0x0400000000000000, 0x1000000000000000])) < 3"
proof -
  have n: "is_normalized [0x0400000000000000, 0x0C00000000000000, 0x3000000000000000]"
    unfolding is_normalized_def by code_simp
  have f: "fst (normalize [0x0400000000000000, 0x0400000000000000, 0x1000000000000000])"
    by code_simp
  show ?thesis
    using n f normalize_reports_reduction [of "[0x0400000000000000, 0x0C00000000000000, 0x3000000000000000]"]
      normalize_reports_reduction [of "[0x0400000000000000, 0x0400000000000000, 0x1000000000000000]"]
    by simp
qed

section \<open>Redundancy elimination\<close>

text \<open>
  C4 (redundancy elimination). A union whose sequence holds a cell \<open>c\<close> and, besides it,
  only cells contained by \<open>c\<close>, at least one of them different from \<open>c\<close>, in any order and
  with any repetition, normalizes to the single identifier \<open>c\<close>, and \<open>normalize\<close>
  reports the reduction.
\<close>

theorem normalize_ancestor:
  assumes "\<forall>d \<in> set cellIds. isValid d \<and> cell_contains c d"
    and "c \<in> set cellIds" and "\<exists>d \<in> set cellIds. d \<noteq> c"
  shows "normalize cellIds = (True, [c])"
proof -
  have nz: "0 \<notin> set cellIds" using assms(1) all_valid_nonzero by blast
  define out where "out = foldl normalize_step [] (sort cellIds)"
  have s: "snd (normalize cellIds) = out" unfolding out_def by (rule normalize_chain(4)[OF nz])
  have ch: "chain out" and cv: "cover out = cover cellIds" and sub: "set out \<subseteq> set cellIds"
    using normalize_chain(1,2,3)[OF nz] unfolding s by simp_all
  have cnz: "c \<noteq> 0" using assms(2) nz by auto
  have nzo: "0 \<notin> set out" using sub nz by auto
  have "unat c \<in> {lo c..hi c}" using range_bounds(1,2)[OF cnz] by simp
  then have "unat c \<in> cover cellIds"
    unfolding cover_def using assms(2) by blast
  then have "unat c \<in> cover out" using cv by simp
  then obtain e where e: "e \<in> set out" "lo e \<le> unat c" "unat c \<le> hi e"
    unfolding cover_def by auto
  have enz: "e \<noteq> 0" using e(1) nzo by auto
  have "cell_contains e c" using point_in_range[OF cnz enz e(2,3)] .
  moreover have "cell_contains c e" using e(1) sub assms(1) by blast
  ultimately have "e = c" by (rule cell_contains_antisym[OF enz cnz])
  then have cin: "c \<in> set out" using e(1) by simp
  have only: "d = c" if "d \<in> set out" for d
  proof (rule ccontr)
    assume "d \<noteq> c"
    then have "c \<noteq> d" by simp
    from chain_no_containment[OF ch nzo cin that this] have "\<not> cell_contains c d" .
    moreover have "cell_contains c d" using that sub assms(1) by blast
    ultimately show False by simp
  qed
  have "distinct out" using chain_sorted[OF ch nzo] by (simp add: strict_sorted_iff)
  moreover have "set out = {c}" using cin only by blast
  ultimately have o: "out = [c]" by (rule distinct_set_single)
  obtain d where d: "d \<in> set cellIds" "d \<noteq> c" using assms(3) by blast
  have "2 \<le> length cellIds" using two_elements[OF d assms(2)] .
  then have "length out < length (sort cellIds)" unfolding o by simp
  then have "normalize cellIds = (True, out)"
    unfolding out_def normalize_def Let_def by (rule if_P)
  then show ?thesis unfolding o .
qed

text \<open>The face-0 cell with three of its descendants: a level-1 cell, a level-2 cell and
  the first leaf of the face.\<close>

theorem normalize_ancestor_witness:
  "isValid 0x1C00000000000000 \<and> cell_contains 0x1000000000000000 0x1C00000000000000
   \<and> isValid 0x0000000000000001 \<and> cell_contains 0x1000000000000000 0x0000000000000001
   \<and> isValid 0x1000000000000000 \<and> cell_contains 0x1000000000000000 0x1000000000000000
   \<and> isValid 0x0500000000000000 \<and> cell_contains 0x1000000000000000 0x0500000000000000
   \<and> normalize [0x1C00000000000000, 0x0000000000000001, 0x1000000000000000, 0x0500000000000000]
       = (True, [0x1000000000000000])"
proof -
  have v: "isValid 0x1C00000000000000" "cell_contains 0x1000000000000000 0x1C00000000000000"
   "isValid 0x0000000000000001" "cell_contains 0x1000000000000000 0x0000000000000001"
   "isValid 0x1000000000000000" "cell_contains 0x1000000000000000 0x1000000000000000"
   "isValid 0x0500000000000000" "cell_contains 0x1000000000000000 0x0500000000000000"
    by code_simp+
  show ?thesis
    using v normalize_ancestor [of "[0x1C00000000000000, 0x0000000000000001, 0x1000000000000000, 0x0500000000000000]" "0x1000000000000000"]
    by simp
qed

section \<open>What expand emits\<close>

text \<open>
  C5 (the scan of expand), as amended. \<open>expand(level)\<close> visits the entries from the end
  toward the start. A visited entry that is finer than \<open>level\<close> (its lowest set bit is
  below the one of the level) is replaced by its ancestor at \<open>level\<close>, and the entries
  before it that this ancestor contains are passed over without being visited; an entry
  at \<open>level\<close> or coarser is kept as it is. For every visited entry the cell and then its
  neighbours at \<open>level\<close> are emitted, and the emitted sequence is normalized before the
  operation returns.
\<close>

theorem expand_scan:
  "cellIds \<noteq> [] \<longrightarrow>
     expand getAllNeighbors cellIds lvl
       = Inr (snd (normalize (expand_spec getAllNeighbors lvl (rev cellIds))))"
  by (simp add: expand_def expand_loop_all)

text \<open>Two leaves of face 0 and the face-1 cell, expanded at level 1 with a neighbour
  enumeration that lists no cell: the face is kept, the second leaf is replaced by its
  level-1 ancestor and the first leaf is passed over.\<close>

theorem expand_scan_witness:
  "[0x0000000000000001, 0x0000000000000003, 0x3000000000000000 :: cellid] \<noteq> []
   \<and> expand_spec (\<lambda>c l. []) 1 (rev [0x0000000000000001, 0x0000000000000003, 0x3000000000000000])
       = [0x3000000000000000, 0x0400000000000000]
   \<and> expand (\<lambda>c l. []) [0x0000000000000001, 0x0000000000000003, 0x3000000000000000] 1
       = Inr [0x0400000000000000, 0x3000000000000000]"
proof -
  have s: "expand_spec (\<lambda>c l. []) 1 (rev [0x0000000000000001, 0x0000000000000003, 0x3000000000000000])
       = [0x3000000000000000, 0x0400000000000000]" by code_simp
  have n: "snd (normalize [0x3000000000000000, 0x0400000000000000]) = [0x0400000000000000, 0x3000000000000000]"
    by code_simp
  show ?thesis
    using s n expand_scan [of "[0x0000000000000001, 0x0000000000000003, 0x3000000000000000]" "\<lambda>c l. []" 1]
    by simp
qed

text \<open>The claim as stated replaces the entries coarser than \<open>level\<close>. The face-0 cell
  is coarser than level 1 and its ancestor formula at level 1 gives another identifier,
  yet the loop emits the face itself.\<close>

theorem expand_coarser_entry_kept:
  "lowestOnBitForLevel 1 < lowestOnBit 0x1000000000000000
   \<and> parentL 0x1000000000000000 1 = 0x1400000000000000
   \<and> expand_loop (\<lambda>c l. []) 1 [0x1000000000000000] 0 [] = Inr [0x1000000000000000]
   \<and> expand (\<lambda>c l. []) [0x1000000000000000] 1 = Inr [0x1000000000000000]"
  by code_simp




section \<open>intersectsUnion\<close>

text \<open>
  C7 (intersectsUnion). \<open>u.intersectsUnion(v)\<close> is true exactly when every identifier of
  \<open>v\<close> intersects \<open>u\<close>: one identifier of \<open>v\<close> that does not intersect \<open>u\<close> makes it
  false, whatever the others do.
\<close>

theorem intersectsUnion_all:
  "intersectsUnion u v \<longleftrightarrow> (\<forall>c \<in> set v. intersects u c)"
  by (induction v) auto

text \<open>The union of the face-0 cell against a child of that cell and the face-1 cell: the
  child intersects, the other face does not, and the answer is false.\<close>

theorem intersectsUnion_all_witness:
  "intersects [0x1000000000000000] 0x0400000000000000
   \<and> \<not> intersects [0x1000000000000000] 0x3000000000000000
   \<and> \<not> intersectsUnion [0x1000000000000000] [0x0400000000000000, 0x3000000000000000]"
  using intersectsUnion_all [of "[0x1000000000000000]" "[0x0400000000000000, 0x3000000000000000]"]
  by code_simp

section \<open>leafCellsCovered\<close>

text \<open>
  C8 (leaf count). On a normalized union of cell identifiers \<open>leafCellsCovered\<close> returns
  the sum over the entries of \<open>4 ^ (MAX_LEVEL - level)\<close> exactly: the sum is at most
  \<open>6 * 4 ^ 30\<close>, below \<open>2 ^ 63\<close>, so the 64-bit additions of \<open>Long\<close> never wrap and the
  signed value read from the result is the sum. On the six face cells the result is
  \<open>6 * 4 ^ 30\<close>.
\<close>

theorem leafCellsCovered_exact:
  "(is_normalized u \<and> (\<forall>c \<in> set u. isValid c) \<longrightarrow>
      sint (leafCellsCovered u) = int (sum_list (map (\<lambda>c. 4 ^ (MAX_LEVEL - level c)) u))
      \<and> sum_list (map (\<lambda>c. 4 ^ (MAX_LEVEL - level c)) u) \<le> (6 * 4 ^ 30 :: nat))
   \<and> sint (leafCellsCovered [0x1000000000000000, 0x3000000000000000, 0x5000000000000000,
                              0x7000000000000000, 0x9000000000000000, 0xB000000000000000]) = 6 * 4 ^ 30"
proof (intro conjI impI)
  assume a: "is_normalized u \<and> (\<forall>c \<in> set u. isValid c)"
  define s :: nat where "s = sum_list (map (\<lambda>c. 4 ^ (MAX_LEVEL - level c)) u)"
  have b: "s \<le> 6 * 4 ^ 30" unfolding s_def using a by (intro normalized_leaves_bound) simp_all
  then show "sum_list (map (\<lambda>c. 4 ^ (MAX_LEVEL - level c)) u) \<le> (6 * 4 ^ 30 :: nat)" by (simp add: s_def)
  have "unat (leafCellsCovered u) = s mod 2 ^ 64" unfolding s_def by (rule leafCellsCovered_mod)
  then have u: "unat (leafCellsCovered u) = s" using b by simp
  then have "uint (leafCellsCovered u) = int s" by (metis uint_nat)
  moreover have "int s < 2 ^ 63" using b by simp
  ultimately have "sint (leafCellsCovered u) = int s"
    by (simp add: sint_uint signed_take_bit_int_eq_self)
  then show "sint (leafCellsCovered u) = int (sum_list (map (\<lambda>c. 4 ^ (MAX_LEVEL - level c)) u))"
    by (simp add: s_def)
next
  show "sint (leafCellsCovered [0x1000000000000000, 0x3000000000000000, 0x5000000000000000,
                              0x7000000000000000, 0x9000000000000000, 0xB000000000000000]) = 6 * 4 ^ 30"
    by code_simp
qed

text \<open>Two level-1 cells of face 0 and the face-1 cell.\<close>

theorem leafCellsCovered_exact_witness:
  "is_normalized [0x0400000000000000, 0x0C00000000000000, 0x3000000000000000]
   \<and> isValid 0x0400000000000000 \<and> isValid 0x0C00000000000000 \<and> isValid 0x3000000000000000
   \<and> sum_list (map (\<lambda>c. 4 ^ (MAX_LEVEL - level c)) [0x0400000000000000, 0x0C00000000000000, 0x3000000000000000])
       = 4 ^ 29 + 4 ^ 29 + (4 ^ 30 :: nat)
   \<and> sint (leafCellsCovered [0x0400000000000000, 0x0C00000000000000, 0x3000000000000000])
       = 4 ^ 29 + 4 ^ 29 + 4 ^ 30"
proof -
  have n: "is_normalized [0x0400000000000000, 0x0C00000000000000, 0x3000000000000000]"
    unfolding is_normalized_def by code_simp
  have v: "isValid 0x0400000000000000" "isValid 0x0C00000000000000" "isValid 0x3000000000000000"
    by code_simp+
  have l: "level 0x0400000000000000 = 1" "level 0x0C00000000000000 = 1" "level 0x3000000000000000 = 0"
    by code_simp+
  have s: "sum_list (map (\<lambda>c. 4 ^ (MAX_LEVEL - level c)) [0x0400000000000000, 0x0C00000000000000, 0x3000000000000000])
       = 4 ^ 29 + 4 ^ 29 + (4 ^ 30 :: nat)"
    by (simp add: l MAX_LEVEL_def)
  show ?thesis
    using n v s leafCellsCovered_exact [of "[0x0400000000000000, 0x0C00000000000000, 0x3000000000000000]"]
    by simp
qed

section \<open>The order after normalize\<close>

text \<open>
  C9 (sorted after normalize). After \<open>normalize\<close> the stored sequence is strictly
  ascending, whichever value is returned: the sort happens in place before the lengths
  are compared. So a false return does not mean that the order is the one before the
  call: two disjoint cells given in descending order come back ascending, with false.
\<close>

theorem normalize_sorted:
  "((\<forall>c \<in> set cellIds. isValid c) \<longrightarrow> sorted_wrt (<) (snd (normalize cellIds)))
   \<and> normalize [0x0C00000000000000, 0x0400000000000000]
       = (False, [0x0400000000000000, 0x0C00000000000000])"
proof
  show "(\<forall>c \<in> set cellIds. isValid c) \<longrightarrow> sorted_wrt (<) (snd (normalize cellIds))"
  proof
    assume "\<forall>c \<in> set cellIds. isValid c"
    then have nz: "0 \<notin> set cellIds" by (rule all_valid_nonzero)
    then have "0 \<notin> set (snd (normalize cellIds))" using normalize_chain(3)[OF nz] by auto
    then show "sorted_wrt (<) (snd (normalize cellIds))"
      using normalize_chain(1)[OF nz] by (intro chain_sorted)
  qed
next
  show "normalize [0x0C00000000000000, 0x0400000000000000]
       = (False, [0x0400000000000000, 0x0C00000000000000])"
    by code_simp
qed

text \<open>A face-0 cell given after two of its level-1 children, one of them twice.\<close>

theorem normalize_sorted_witness:
  "isValid 0x1C00000000000000 \<and> isValid 0x0400000000000000 \<and> isValid 0x1000000000000000
   \<and> isValid 0x0400000000000000
   \<and> sorted_wrt (<) (snd (normalize [0x1C00000000000000, 0x0400000000000000, 0x1000000000000000, 0x0400000000000000]))
   \<and> snd (normalize [0x1C00000000000000, 0x0400000000000000, 0x1000000000000000, 0x0400000000000000]) = [0x1000000000000000]"
proof -
  have v: "isValid 0x1C00000000000000" "isValid 0x0400000000000000" "isValid 0x1000000000000000"
    by code_simp+
  have e: "snd (normalize [0x1C00000000000000, 0x0400000000000000, 0x1000000000000000, 0x0400000000000000]) = [0x1000000000000000]"
    by code_simp
  show ?thesis
    using v e normalize_sorted [of "[0x1C00000000000000, 0x0400000000000000, 0x1000000000000000, 0x0400000000000000]"]
    by simp
qed

section \<open>expand on the empty union\<close>

lemma skip_contained_total:
  "0 \<le> i \<Longrightarrow> i < int (length cellIds) \<Longrightarrow> \<exists>i'. skip_contained cellIds cid i = Inr i' \<and> 0 \<le> i'"
proof (induction cellIds cid i rule: skip_contained.induct)
  case (1 cellIds cid i)
  show ?case
  proof (cases "i > 0")
    case True
    then obtain c where c: "cellId cellIds (i - 1) = Some c"
      using "1.prems" by (auto simp: cellId_def)
    show ?thesis
    proof (cases "cell_contains cid c")
      case True
      have "\<exists>i'. skip_contained cellIds cid (i - 1) = Inr i' \<and> 0 \<le> i'"
        using "1.IH" [OF \<open>i > 0\<close> c True] "1.prems" \<open>i > 0\<close> by simp
      then show ?thesis using \<open>i > 0\<close> c True by (subst skip_contained.simps) simp
    next
      case False
      then show ?thesis using \<open>i > 0\<close> c "1.prems" by (subst skip_contained.simps) simp
    qed
  next
    case False
    then show ?thesis using "1.prems" by (subst skip_contained.simps) simp
  qed
qed

lemma expand_pick_total:
  assumes "0 \<le> i" "i < int (length cellIds)"
  shows "\<exists>cid i'. expand_pick lvl cellIds i = Inr (cid, i') \<and> 0 \<le> i'"
proof -
  have c: "cellId cellIds i = Some (cellIds ! nat i)" using assms by (simp add: cellId_def)
  show ?thesis
  proof (cases "lowestOnBit (cellIds ! nat i) < lowestOnBitForLevel lvl")
    case True
    from skip_contained_total [OF assms, of "parentL (cellIds ! nat i) lvl"]
    obtain i' where "skip_contained cellIds (parentL (cellIds ! nat i) lvl) i = Inr i'" "0 \<le> i'"
      by blast
    then show ?thesis using c True by (simp add: expand_pick_def)
  next
    case False
    then show ?thesis using c assms by (simp add: expand_pick_def)
  qed
qed

lemma expand_loop_total:
  "0 \<le> i \<Longrightarrow> i < int (length cellIds) \<Longrightarrow> \<exists>r. expand_loop g lvl cellIds i out = Inr r"
proof (induction g lvl cellIds i out rule: expand_loop.induct)
  case (1 g lvl cellIds i out)
  from expand_pick_total [OF "1.prems", of lvl] obtain cid i'
    where pick: "expand_pick lvl cellIds i = Inr (cid, i')" and i': "0 \<le> i'" by blast
  have le: "i' \<le> i" using expand_pick_bounds [OF pick] by simp
  show ?case
  proof (cases "i' - 1 \<ge> 0")
    case True
    have "\<exists>r. expand_loop g lvl cellIds (i' - 1) ((out @ [cid]) @ g cid lvl) = Inr r"
      using "1.IH" [OF pick refl True] True le "1.prems" by simp
    then show ?thesis using pick True by (subst expand_loop.simps) simp
  next
    case False
    then show ?thesis using pick by (subst expand_loop.simps) simp
  qed
qed

text \<open>
  C10 (expand on the empty union). On the empty union the do-while loop of \<open>expand\<close> runs
  its body once at index -1, where \<open>cellId\<close> yields no cell, and the call fails with a
  \<open>TypeError\<close>; on every non-empty union \<open>expand\<close> returns a result.
\<close>

theorem expand_empty_fails:
  "expand g [] lvl = Inl TypeError
   \<and> (cellIds \<noteq> [] \<longrightarrow> (\<exists>r. expand g cellIds lvl = Inr r))"
proof
  have "expand_pick lvl [] (- 1) = Inl TypeError" by (simp add: expand_pick_def cellId_def)
  then have "expand_loop g lvl [] (- 1) [] = Inl TypeError"
    by (subst expand_loop.simps) simp
  then show "expand g [] lvl = Inl TypeError" by (simp add: expand_def)
next
  show "cellIds \<noteq> [] \<longrightarrow> (\<exists>r. expand g cellIds lvl = Inr r)"
  proof
    assume "cellIds \<noteq> []"
    then have "0 \<le> int (length cellIds) - 1" "int (length cellIds) - 1 < int (length cellIds)"
      by (cases cellIds; simp)+
    from expand_loop_total [OF this, of g lvl "[]"] show "\<exists>r. expand g cellIds lvl = Inr r"
      by (auto simp: expand_def)
  qed
qed

text \<open>With a neighbour enumeration that lists no cell, on the empty union and on the
  face-0 cell alone.\<close>

theorem expand_empty_fails_witness:
  "expand (\<lambda>c l. []) [] 0 = Inl TypeError
   \<and> [0x1000000000000000 :: cellid] \<noteq> []
   \<and> (\<exists>r. expand (\<lambda>c l. []) [0x1000000000000000] 0 = Inr r)"
  using expand_empty_fails [of "\<lambda>c l. []" 0 "[0x1000000000000000]"]
  by simp

end
